theory Spec2Isabelle
  imports Main "HOL-Library.Word"
begin

unbundle bit_operations_syntax

section \<open>Data: bytes and Python strings\<close>

text \<open>
  A Python \<open>bytes\<close> object is a list of 8-bit values; indexing it gives a Python integer,
  read here with \<open>unat\<close>. A Python \<open>str\<close> is the list of its code points.
\<close>

type_synonym byte = "8 word"
type_synonym pybytes = "byte list"
type_synonym pystr = "nat list"

section \<open>The table \<open>printable\<close> and the hexadecimal format specs\<close>

definition printable :: "nat list" where
  "printable =
    [0, 0, 0, 0, 0, 0, 0, 0, 0, 1, 1, 0, 0, 1, 0, 0] @
    [0, 0, 0, 0, 0, 0, 0, 0, 0, 0, 0, 0, 0, 0, 0, 0] @
    [1, 1, 1, 1, 1, 1, 1, 1, 1, 1, 1, 1, 1, 1, 1, 1] @
    [1, 1, 1, 1, 1, 1, 1, 1, 1, 1, 1, 1, 1, 1, 1, 1] @
    [1, 1, 1, 1, 1, 1, 1, 1, 1, 1, 1, 1, 1, 1, 1, 1] @
    [1, 1, 1, 1, 1, 1, 1, 1, 1, 1, 1, 1, 1, 1, 1, 1] @
    [1, 1, 1, 1, 1, 1, 1, 1, 1, 1, 1, 1, 1, 1, 1, 1] @
    [1, 1, 1, 1, 1, 1, 1, 1, 1, 1, 1, 1, 1, 1, 1, 0]"

text \<open>The code point of the lower-case hexadecimal digit of a value below 16.\<close>

definition hexdigit :: "nat \<Rightarrow> nat" where
  "hexdigit d = (if d < 10 then 48 + d else 87 + d)"

text \<open>The digits of \<open>format(n, 'x')\<close>, most significant first.\<close>

function hexstr :: "nat \<Rightarrow> pystr" where
  "hexstr n = (if n < 16 then [hexdigit n] else hexstr (n div 16) @ [hexdigit (n mod 16)])"
  by pat_completeness auto
termination
  by (relation "measure (\<lambda>n. n)") auto

declare hexstr.simps [simp del]

text \<open>\<open>"{:0wx}".format(n)\<close>: the digits, padded on the left with \<open>0\<close> to width \<open>w\<close>.\<close>

definition format_x :: "nat \<Rightarrow> nat \<Rightarrow> pystr" where
  "format_x w n = replicate (w - length (hexstr n)) 48 @ hexstr n"

text \<open>Two and four hexadecimal digits of a value, written out digit by digit.\<close>

definition hex2 :: "nat \<Rightarrow> pystr" where
  "hex2 n = [hexdigit (n div 16), hexdigit (n mod 16)]"

definition hex4 :: "nat \<Rightarrow> pystr" where
  "hex4 n = [hexdigit (n div 4096), hexdigit (n div 256 mod 16),
             hexdigit (n div 16 mod 16), hexdigit (n mod 16)]"

section \<open>\<open>consoleFormat\<close>\<close>

text \<open>
  The two halves of the surrogate pair, as the source computes them from the code point
  (\<open>bt20\<close>, \<open>hi10\<close>, \<open>lo10\<close>). The subtraction is reached only for code points from
  \<open>0x10000\<close> on.
\<close>

definition bt20 :: "nat \<Rightarrow> nat" where
  "bt20 cp = cp - 0x10000"

definition hi10 :: "nat \<Rightarrow> nat" where
  "hi10 cp = ((drop_bit 10 (bt20 cp AND 0xFFC00)) AND 0x3FF) + 0xD800"

definition lo10 :: "nat \<Rightarrow> nat" where
  "lo10 cp = (bt20 cp AND 0x3FF) + 0xDC00"

text \<open>The surrogate pair as the specification words it.\<close>

definition spec_high :: "nat \<Rightarrow> nat" where
  "spec_high cp = 0xD800 + drop_bit 10 (cp - 0x10000)"

definition spec_low :: "nat \<Rightarrow> nat" where
  "spec_low cp = 0xDC00 + ((cp - 0x10000) AND 0x3FF)"

text \<open>
  The body of the loop \<open>for c in decodedChars\<close>: what one code point adds to
  \<open>consoleChars\<close>. Code point 92 is the backslash, 120 is \<open>x\<close>, 117 is \<open>u\<close>.
\<close>

definition consoleChar :: "nat \<Rightarrow> pystr" where
  "consoleChar cp =
    (if cp < 0x80 then
       (if printable ! cp = 1 then [cp] else [92, 120] @ format_x 2 cp)
     else if cp \<le> 0x0513 then [cp]
     else if cp < 0x10000 then [92, 117] @ format_x 4 cp
     else if cp < 0x110000 then
       [92, 117] @ format_x 4 (hi10 cp) @ [92, 117] @ format_x 4 (lo10 cp)
     else [0xFFFD])"

text \<open>
  The rendering of one code point as the specification words it, range by range:
  printable ASCII, TAB, CR and LF as themselves; the rest below \<open>0x80\<close> as \<open>\xhh\<close>;
  \<open>0x80\<close> to \<open>0x513\<close> as themselves; up to \<open>0xFFFF\<close> as \<open>\uhhhh\<close>; above that as the
  surrogate pair \<open>\uhhhh\uhhhh\<close> of the reference formula.
\<close>

definition spec_render :: "nat \<Rightarrow> pystr" where
  "spec_render cp =
    (if (0x20 \<le> cp \<and> cp \<le> 0x7E) \<or> cp = 9 \<or> cp = 13 \<or> cp = 10 then [cp]
     else if cp < 0x80 then [92, 120] @ hex2 cp
     else if cp \<le> 0x513 then [cp]
     else if cp \<le> 0xFFFF then [92, 117] @ hex4 cp
     else [92, 117] @ hex4 (spec_high cp) @ [92, 117] @ hex4 (spec_low cp))"

subsection \<open>The decoder of the Python runtime\<close>

text \<open>
  \<open>bytes.decode\<close> is the UTF-8 decoder of the Python runtime. At each position it either
  decodes one well-formed sequence, or reports an error span: the lead byte together
  with the continuation bytes that were still acceptable after it (a lone byte when the
  lead byte itself is not acceptable). Over-long forms, surrogates and values above
  \<open>0x10FFFF\<close> are rejected at the second byte. Decoding resumes after the span.
\<close>

datatype utf8_item = Chr nat | Bad pybytes

text \<open>A continuation byte has the form \<open>10xxxxxx\<close>: the test \<open>(b >> 6) == 0b10\<close>.\<close>

definition is_cont :: "byte \<Rightarrow> bool" where
  "is_cont b = (drop_bit 6 (unat b) = 2)"

text \<open>
  \<open>utf8_head b bs\<close> reads the item that starts with the byte \<open>b\<close> followed by \<open>bs\<close>, and
  says how many bytes of \<open>bs\<close> belong to it.
\<close>

definition utf8_head :: "byte \<Rightarrow> pybytes \<Rightarrow> utf8_item \<times> nat" where
  "utf8_head b bs =
    (let ch = unat b in
     if ch < 0x80 then (Chr ch, 0)
     else if ch < 0xC2 then (Bad [b], 0)
     else if ch < 0xE0 then
       (case bs of
          [] \<Rightarrow> (Bad [b], 0)
        | c2 # _ \<Rightarrow>
            if is_cont c2
            then (Chr (push_bit 6 (ch AND 0x1F) + (unat c2 AND 0x3F)), 1)
            else (Bad [b], 0))
     else if ch < 0xF0 then
       (case bs of
          [] \<Rightarrow> (Bad [b], 0)
        | c2 # r2 \<Rightarrow>
            if \<not> is_cont c2 \<or> (if unat c2 < 0xA0 then ch = 0xE0 else ch = 0xED)
            then (Bad [b], 0)
            else (case r2 of
                    [] \<Rightarrow> (Bad [b, c2], 1)
                  | c3 # _ \<Rightarrow>
                      if is_cont c3
                      then (Chr (push_bit 12 (ch AND 0x0F) + push_bit 6 (unat c2 AND 0x3F)
                                 + (unat c3 AND 0x3F)), 2)
                      else (Bad [b, c2], 1)))
     else if ch < 0xF5 then
       (case bs of
          [] \<Rightarrow> (Bad [b], 0)
        | c2 # r2 \<Rightarrow>
            if \<not> is_cont c2 \<or> (if unat c2 < 0x90 then ch = 0xF0 else ch = 0xF4)
            then (Bad [b], 0)
            else (case r2 of
                    [] \<Rightarrow> (Bad [b, c2], 1)
                  | c3 # r3 \<Rightarrow>
                      if \<not> is_cont c3 then (Bad [b, c2], 1)
                      else (case r3 of
                              [] \<Rightarrow> (Bad [b, c2, c3], 2)
                            | c4 # _ \<Rightarrow>
                                if is_cont c4
                                then (Chr (push_bit 18 (ch AND 0x07)
                                           + push_bit 12 (unat c2 AND 0x3F)
                                           + push_bit 6 (unat c3 AND 0x3F)
                                           + (unat c4 AND 0x3F)), 3)
                                else (Bad [b, c2, c3], 2))))
     else (Bad [b], 0))"

function utf8_items :: "pybytes \<Rightarrow> utf8_item list" where
  "utf8_items [] = []"
| "utf8_items (b # bs) = fst (utf8_head b bs) # utf8_items (drop (snd (utf8_head b bs)) bs)"
  by pat_completeness auto
termination
  by (relation "measure length") auto

text \<open>
  The error handler \<open>backslashreplace\<close> writes every byte of an error span as
  \<open>\xhh\<close>; the handler \<open>replace\<close> writes one \<open>U+FFFD\<close> for the span.
\<close>

definition escape_byte :: "byte \<Rightarrow> pystr" where
  "escape_byte b = [92, 120] @ format_x 2 (unat b)"

fun item_backslashreplace :: "utf8_item \<Rightarrow> pystr" where
  "item_backslashreplace (Chr c) = [c]"
| "item_backslashreplace (Bad span) = concat (map escape_byte span)"

fun item_replace :: "utf8_item \<Rightarrow> pystr" where
  "item_replace (Chr c) = [c]"
| "item_replace (Bad span) = [0xFFFD]"

definition decode_backslashreplace :: "pybytes \<Rightarrow> pystr" where
  "decode_backslashreplace bs = concat (map item_backslashreplace (utf8_items bs))"

definition decode_replace :: "pybytes \<Rightarrow> pystr" where
  "decode_replace bs = concat (map item_replace (utf8_items bs))"

text \<open>
  \<open>consoleFormat\<close>. The decoding with an error handler does not raise, and the loop body
  reads \<open>printable\<close> only below \<open>0x80\<close>, inside the table, so the \<open>except\<close> branch is never
  taken.
\<close>

definition consoleFormat :: "pybytes \<Rightarrow> pystr" where
  "consoleFormat bytesIn = concat (map consoleChar (decode_backslashreplace bytesIn))"


section \<open>The reader thread\<close>

text \<open>
  The backward scan \<open>while (i > 0) and ((bytesIn[i - 1] >> 6) == 0b10): i -= 1\<close>,
  started at \<open>i\<close>.
\<close>

primrec scan_back :: "pybytes \<Rightarrow> nat \<Rightarrow> nat" where
  "scan_back bytesIn 0 = 0"
| "scan_back bytesIn (Suc n) = (if is_cont (bytesIn ! n) then scan_back bytesIn n else Suc n)"

text \<open>The number of continuation bytes that the bit pattern of a lead byte announces.\<close>

definition expected_cont :: "byte \<Rightarrow> nat" where
  "expected_cont leadByte =
    (if drop_bit 5 (unat leadByte) = 6 then 1
     else if drop_bit 4 (unat leadByte) = 14 then 2
     else if drop_bit 3 (unat leadByte) = 30 then 3
     else 0)"

text \<open>
  The reassembly step on the non-empty \<open>bytesIn\<close> (held trail already prepended): the
  pair of the bytes passed on to \<open>consoleFormat\<close> and the new \<open>trail\<close>.
\<close>

definition reassemble :: "pybytes \<Rightarrow> pybytes \<times> pybytes" where
  "reassemble bytesIn =
    (let i = scan_back bytesIn (length bytesIn);
         nCont = length bytesIn - i
     in if i > 0 then
          (let leadByte = bytesIn ! (i - 1);
               expectedCont = expected_cont leadByte
           in if nCont < expectedCont
              then (take (i - 1) bytesIn, drop (i - 1) bytesIn)
              else (bytesIn, []))
        else ([], bytesIn))"

text \<open>
  What a blocking \<open>recv\<close> gives: an exception or the bytes read. What \<open>console.write\<close>
  does with a text: it succeeds, raises \<open>UnicodeEncodeError\<close>, or raises something else.
\<close>

datatype recv_result = RecvError | Received pybytes

datatype write_result = WriteOk | WriteUnicodeEncodeError | WriteError

datatype 'a step = Continue 'a | Break 'a

text \<open>
  The state of the reader thread: the held trail, the arguments of the calls of
  \<open>log.write\<close> and the texts written to the console, both in order.
\<close>

record reader_state =
  trail :: pybytes
  logged :: "pybytes list"
  shown :: "pystr list"

definition reader_init :: reader_state where
  "reader_init = \<lparr>trail = [], logged = [], shown = []\<rparr>"

text \<open>One iteration of the loop \<open>while True\<close> of \<open>rokuReaderThread\<close>.\<close>

definition reader_step ::
    "(pystr \<Rightarrow> write_result) \<Rightarrow> reader_state \<Rightarrow> recv_result \<Rightarrow> reader_state step" where
  "reader_step console st r =
    (case r of
       RecvError \<Rightarrow> Break st
     | Received data \<Rightarrow>
         (let bytesIn = (if trail st \<noteq> [] then trail st @ data else data);
              st1 = (if trail st \<noteq> [] then st\<lparr>trail := []\<rparr> else st)
          in if bytesIn \<noteq> [] then
               (let st2 = st1\<lparr>logged := logged st1 @ [bytesIn]\<rparr>;
                    st3 = st2\<lparr>trail := snd (reassemble bytesIn)\<rparr>;
                    text = consoleFormat (fst (reassemble bytesIn))
                in case console text of
                     WriteOk \<Rightarrow> Continue (st3\<lparr>shown := shown st3 @ [text]\<rparr>)
                   | WriteUnicodeEncodeError \<Rightarrow> Continue st3
                   | WriteError \<Rightarrow> Break st3)
             else Continue st1))"

text \<open>
  The thread over the results of its successive \<open>recv\<close> calls. \<open>Exited\<close>: the loop was
  left (and the quit message is queued). \<open>Waiting\<close>: the loop is still running and is
  about to call \<open>recv\<close> again.
\<close>

datatype 'a run = Exited 'a | Waiting 'a

fun rokuReaderThread ::
    "(pystr \<Rightarrow> write_result) \<Rightarrow> recv_result list \<Rightarrow> reader_state \<Rightarrow> reader_state run" where
  "rokuReaderThread console [] st = Waiting st"
| "rokuReaderThread console (r # rs) st =
    (case reader_step console st r of
       Break st' \<Rightarrow> Exited st'
     | Continue st' \<Rightarrow> rokuReaderThread console rs st')"

fun run_state :: "'a run \<Rightarrow> 'a" where
  "run_state (Exited st) = st"
| "run_state (Waiting st) = st"

text \<open>A console that accepts every text.\<close>

definition console_ok :: "pystr \<Rightarrow> write_result" where
  "console_ok text = WriteOk"

text \<open>
  A byte string is valid UTF-8 when the decoder meets no error span in it.
\<close>

fun is_Chr :: "utf8_item \<Rightarrow> bool" where
  "is_Chr (Chr c) = True"
| "is_Chr (Bad span) = False"

definition utf8_valid :: "pybytes \<Rightarrow> bool" where
  "utf8_valid bs = list_all is_Chr (utf8_items bs)"

section \<open>The console thread\<close>

text \<open>Code point 13 is the carriage return.\<close>

text \<open>
  \<open>reLines.findall\<close> with the pattern \<open>[^\r]*\r\<close>: at each position the longest run of
  characters other than CR, which must be followed by a CR; the next match starts
  after it. Where no CR follows, no later position matches either.
\<close>

function reLines_findall :: "pystr \<Rightarrow> pystr list" where
  "reLines_findall s =
    (case dropWhile (\<lambda>c. c \<noteq> 13) s of
       [] \<Rightarrow> []
     | cr # rest \<Rightarrow> (takeWhile (\<lambda>c. c \<noteq> 13) s @ [cr]) # reLines_findall rest)"
  by pat_completeness auto
termination
proof (relation "measure length")
  show "wf (measure length)" by simp
next
  fix s :: pystr and cr rest
  assume "dropWhile (\<lambda>c. c \<noteq> 13) s = cr # rest"
  then have "length (cr # rest) \<le> length s"
    using length_dropWhile_le [of "\<lambda>c. c \<noteq> 13" s] by simp
  then show "(rest, s) \<in> measure length" by simp
qed

declare reLines_findall.simps [simp del]

text \<open>
  \<open>reTrail.search(...).group()\<close> with the pattern \<open>[^\r]*\Z\<close>: the match at the first
  position from which no CR follows up to the end of the string. There is always one.
\<close>

fun reTrail_search :: "pystr \<Rightarrow> pystr" where
  "reTrail_search [] = []"
| "reTrail_search (c # cs) = (if 13 \<in> set (c # cs) then reTrail_search cs else c # cs)"

text \<open>\<open>line.rstrip('\r')\<close>.\<close>

definition rstrip_cr :: "pystr \<Rightarrow> pystr" where
  "rstrip_cr s = rev (dropWhile (\<lambda>c. c = 13) (rev s))"

text \<open>The substring test \<open>sub in s\<close>.\<close>

fun startswith :: "pystr \<Rightarrow> pystr \<Rightarrow> bool" where
  "startswith s [] = True"
| "startswith [] (p # ps) = False"
| "startswith (c # cs) (p # ps) = (c = p \<and> startswith cs ps)"

fun contains :: "pystr \<Rightarrow> pystr \<Rightarrow> bool" where
  "contains sub [] = (sub = [])"
| "contains sub (c # cs) = (startswith (c # cs) sub \<or> contains sub cs)"

text \<open>The literals \<open>'quit\r'\<close> and \<open>'break\r'\<close>.\<close>

definition quit_cmd :: pystr where
  "quit_cmd = [113, 117, 105, 116, 13]"

definition break_cmd :: pystr where
  "break_cmd = [98, 114, 101, 97, 107, 13]"

text \<open>The text \<open>"roky: Breaking into debugger"\<close>.\<close>

definition breaking_msg :: pystr where
  "breaking_msg = [114, 111, 107, 121, 58, 32, 66, 114, 101, 97, 107, 105, 110, 103, 32,
                   105, 110, 116, 111, 32, 100, 101, 98, 117, 103, 103, 101, 114]"

text \<open>
  \<open>str.encode()\<close>, the UTF-8 encoder of the Python runtime. It raises
  \<open>UnicodeEncodeError\<close> on a surrogate code point: the result is \<open>None\<close>.
\<close>

definition encodable_cp :: "nat \<Rightarrow> bool" where
  "encodable_cp c = (c < 0xD800 \<or> (0xDFFF < c \<and> c < 0x110000))"

definition utf8_of_cp :: "nat \<Rightarrow> pybytes" where
  "utf8_of_cp c =
    (if c < 0x80 then [of_nat c]
     else if c < 0x800 then [of_nat (0xC0 + c div 64), of_nat (0x80 + c mod 64)]
     else if c < 0x10000 then
       [of_nat (0xE0 + c div 4096), of_nat (0x80 + c div 64 mod 64), of_nat (0x80 + c mod 64)]
     else
       [of_nat (0xF0 + c div 262144), of_nat (0x80 + c div 4096 mod 64),
        of_nat (0x80 + c div 64 mod 64), of_nat (0x80 + c mod 64)])"

definition encode_cp :: "nat \<Rightarrow> pybytes option" where
  "encode_cp c = (if encodable_cp c then Some (utf8_of_cp c) else None)"

fun str_encode :: "pystr \<Rightarrow> pybytes option" where
  "str_encode [] = Some []"
| "str_encode (c # cs) =
    (case encode_cp c of
       None \<Rightarrow> None
     | Some b \<Rightarrow> (case str_encode cs of None \<Rightarrow> None | Some bs \<Rightarrow> Some (b @ bs)))"

text \<open>
  The state of the console thread: \<open>charBuf\<close>, the arguments of the calls of
  \<open>log.write\<close>, the messages put on \<open>rokuWriterQ\<close> and the lines printed with \<open>tPrint\<close>.
\<close>

record console_state =
  charBuf :: pystr
  clogged :: "pybytes list"
  queued :: "pybytes list"
  printed :: "pystr list"

definition console_init :: console_state where
  "console_init = \<lparr>charBuf = [], clogged = [], queued = [], printed = []\<rparr>"

text \<open>
  The loop \<open>for line in reLines.findall(charBuf)\<close>. An exception of \<open>line.encode()\<close>
  leaves the thread through the handler \<open>except Exception\<close>.
\<close>

fun relay_lines :: "pystr list \<Rightarrow> console_state \<Rightarrow> console_state step" where
  "relay_lines [] st = Continue st"
| "relay_lines (line # ls) st =
    (let st1 = st\<lparr>printed := printed st @ [rstrip_cr line]\<rparr>
     in case str_encode line of
          None \<Rightarrow> Break st1
        | Some b \<Rightarrow> relay_lines ls (st1\<lparr>queued := queued st1 @ [b @ [0x0A]]\<rparr>))"

text \<open>One iteration of the loop \<open>while True\<close> of \<open>consoleThread\<close>.\<close>

definition console_step :: "console_state \<Rightarrow> recv_result \<Rightarrow> console_state step" where
  "console_step st r =
    (case r of
       RecvError \<Rightarrow> Break st
     | Received bytesIn \<Rightarrow>
         if bytesIn = [] then Break st
         else
           (let st1 = st\<lparr>clogged := clogged st @ [bytesIn @ [0x0A]]\<rparr>;
                st2 = st1\<lparr>charBuf := charBuf st1 @ decode_replace bytesIn\<rparr>
            in if contains quit_cmd (charBuf st2) then Break st2
               else if contains break_cmd (charBuf st2) then
                 Continue (st2\<lparr>printed := printed st2 @ [breaking_msg],
                               charBuf := [],
                               queued := queued st2 @ [[0x03]]\<rparr>)
               else
                 (case relay_lines (reLines_findall (charBuf st2)) st2 of
                    Break st3 \<Rightarrow> Break st3
                  | Continue st3 \<Rightarrow>
                      Continue (st3\<lparr>charBuf := reTrail_search (charBuf st2)\<rparr>))))"

fun step_state :: "'a step \<Rightarrow> 'a" where
  "step_state (Continue st) = st"
| "step_state (Break st) = st"

fun consoleThread :: "recv_result list \<Rightarrow> console_state \<Rightarrow> console_state run" where
  "consoleThread [] st = Waiting st"
| "consoleThread (r # rs) st =
    (case console_step st r of
       Break st' \<Rightarrow> Exited st'
     | Continue st' \<Rightarrow> consoleThread rs st')"

section \<open>Rendering of single code points\<close>


lemma surr_hi: "v < 2^20 \<Longrightarrow> (drop_bit 10 ((v::nat) AND 0xFFC00)) AND 0x3FF = drop_bit 10 v"
proof -
  assume v: "v < 2^20"
  have a: "(0xFFC00::nat) = push_bit 10 (mask 10)" by (simp add: mask_eq_exp_minus_1 push_bit_eq_mult)
  have b: "(0x3FF::nat) = mask 10" by (simp add: mask_eq_exp_minus_1)
  have c: "drop_bit 10 v < 2^10" using v by (simp add: drop_bit_eq_div less_mult_imp_div_less)
  have d: "take_bit 10 (drop_bit 10 v) = drop_bit 10 v" using c by (simp add: take_bit_nat_eq_self)
  show ?thesis unfolding a b
    using d by (simp add: drop_bit_push_bit flip: take_bit_eq_mask)
qed

lemma and_3ff: "(v::nat) AND 0x3FF = v mod 1024"
proof -
  have b: "(0x3FF::nat) = mask 10" by (simp add: mask_eq_exp_minus_1)
  show ?thesis unfolding b by (simp add: take_bit_eq_mod flip: take_bit_eq_mask)
qed

lemma hexstr_lt16: "n < 16 \<Longrightarrow> hexstr n = [hexdigit n]"
  by (subst hexstr.simps) simp

lemma hexstr_ge16: "\<not> n < 16 \<Longrightarrow> hexstr n = hexstr (n div 16) @ [hexdigit (n mod 16)]"
  by (subst hexstr.simps) simp


lemma hexstr_256: "n < 256 \<Longrightarrow> \<not> n < 16 \<Longrightarrow> hexstr n = [hexdigit (n div 16), hexdigit (n mod 16)]"
  by (simp add: hexstr_ge16 hexstr_lt16 less_mult_imp_div_less)

lemma hexstr_4096: "n < 4096 \<Longrightarrow> \<not> n < 256 \<Longrightarrow> 
   hexstr n = [hexdigit (n div 256), hexdigit (n div 16 mod 16), hexdigit (n mod 16)]"
proof -
  assume a: "n < 4096" "\<not> n < 256"
  have "n div 16 < 256" "\<not> n div 16 < 16" using a by auto
  then have "hexstr (n div 16) = [hexdigit (n div 16 div 16), hexdigit (n div 16 mod 16)]"
    by (rule hexstr_256)
  moreover have "n div 16 div 16 = n div 256" by (simp add: div_mult2_eq[symmetric])
  ultimately show ?thesis using a by (simp add: hexstr_ge16)
qed

lemma hexstr_65536: "n < 65536 \<Longrightarrow> \<not> n < 4096 \<Longrightarrow> 
   hexstr n = [hexdigit (n div 4096), hexdigit (n div 256 mod 16), hexdigit (n div 16 mod 16), hexdigit (n mod 16)]"
proof -
  assume a: "n < 65536" "\<not> n < 4096"
  have "n div 16 < 4096" "\<not> n div 16 < 256" using a by auto
  then have "hexstr (n div 16) = [hexdigit (n div 16 div 256), hexdigit (n div 16 div 16 mod 16), hexdigit (n div 16 mod 16)]"
    by (rule hexstr_4096)
  moreover have "n div 16 div 16 = n div 256" "n div 16 div 256 = n div 4096" by (simp_all add: div_mult2_eq[symmetric])
  ultimately show ?thesis using a by (simp add: hexstr_ge16)
qed

lemma rep1: "replicate (Suc 0) x = [x]" by simp
lemma rep2: "replicate 2 x = [x, x]" by (simp add: numeral_2_eq_2)
lemma rep3: "replicate 3 x = [x, x, x]" by (simp add: numeral_3_eq_3)

lemma format_x2: "n < 256 \<Longrightarrow> format_x 2 n = [hexdigit (n div 16), hexdigit (n mod 16)]"
  by (cases "n < 16") (simp_all add: format_x_def hexstr_lt16 hexstr_256 hexdigit_def)

lemma format_x4: "n < 65536 \<Longrightarrow> format_x 4 n =
   [hexdigit (n div 4096), hexdigit (n div 256 mod 16), hexdigit (n div 16 mod 16), hexdigit (n mod 16)]"
proof -
  assume a: "n < 65536"
  consider "n < 16" | "\<not> n < 16" "n < 256" | "\<not> n < 256" "n < 4096" | "\<not> n < 4096" by linarith
  then show ?thesis
  proof cases
    case 1 then show ?thesis by (simp add: format_x_def hexstr_lt16 hexdigit_def rep2 rep3)
  next
    case 2 then show ?thesis by (simp add: format_x_def hexstr_256 hexdigit_def rep2 rep3)
  next
    case 3 then show ?thesis by (simp add: format_x_def hexstr_4096 hexdigit_def rep2 rep3)
  next
    case 4 then show ?thesis using a by (simp add: format_x_def hexstr_65536)
  qed
qed


lemma printable_length: "length printable = 128"
  by (simp add: printable_def)

lemma printable_table:
  "\<forall>cp\<in>{0..<128}. (printable ! cp = 1) = (cp = 9 \<or> cp = 10 \<or> cp = 13 \<or> (32 \<le> cp \<and> cp \<le> 126))"
  by code_simp

lemma printable_iff:
  "cp < 128 \<Longrightarrow> (printable ! cp = Suc 0) = (cp = 9 \<or> cp = 10 \<or> cp = 13 \<or> (32 \<le> cp \<and> cp \<le> 126))"
  using printable_table by simp

lemma bt20_less: "cp \<le> 0x10FFFF \<Longrightarrow> bt20 cp < 2 ^ 20"
  by (simp add: bt20_def)

lemma hi10_eq: "cp \<le> 0x10FFFF \<Longrightarrow> hi10 cp = spec_high cp"
  using surr_hi [OF bt20_less, of cp] by (simp add: hi10_def spec_high_def bt20_def)

lemma lo10_eq: "lo10 cp = spec_low cp"
  by (simp add: lo10_def spec_low_def bt20_def)

lemma spec_high_range: "0x10000 \<le> cp \<Longrightarrow> cp \<le> 0x10FFFF \<Longrightarrow> 0xD800 \<le> spec_high cp \<and> spec_high cp \<le> 0xDBFF"
  by (simp add: spec_high_def drop_bit_eq_div) 

lemma spec_low_range: "0xDC00 \<le> spec_low cp \<and> spec_low cp \<le> 0xDFFF"
  by (simp add: spec_low_def and_3ff) 

text \<open>
  Claim C3. For every code point from \<open>0x10000\<close> to \<open>0x10FFFF\<close> the pair \<open>hi10\<close>, \<open>lo10\<close>
  that \<open>consoleFormat\<close> computes is the pair of the reference formula
  \<open>0xD800 + (v >> 10)\<close>, \<open>0xDC00 + (v & 0x3FF)\<close> with \<open>v = cp - 0x10000\<close>; the high half
  lies in \<open>[0xD800, 0xDBFF]\<close>, the low half in \<open>[0xDC00, 0xDFFF]\<close>, and the two are what
  the code point is rendered with.
\<close>

theorem surrogate_pair_matches_spec:
  assumes "0x10000 \<le> cp" and "cp \<le> 0x10FFFF"
  shows "hi10 cp = spec_high cp \<and> lo10 cp = spec_low cp
       \<and> 0xD800 \<le> hi10 cp \<and> hi10 cp \<le> 0xDBFF \<and> 0xDC00 \<le> lo10 cp \<and> lo10 cp \<le> 0xDFFF
       \<and> consoleChar cp = [92, 117] @ format_x 4 (spec_high cp) @ [92, 117] @ format_x 4 (spec_low cp)"
proof -
  have h: "hi10 cp = spec_high cp" using assms(2) by (rule hi10_eq)
  have l: "lo10 cp = spec_low cp" by (rule lo10_eq)
  have c: "consoleChar cp = [92, 117] @ format_x 4 (hi10 cp) @ [92, 117] @ format_x 4 (lo10 cp)"
    using assms by (simp add: consoleChar_def)
  show ?thesis
    using spec_high_range [OF assms] spec_low_range [of cp] c by (simp add: h l)
qed

theorem surrogate_pair_witness:
  "hi10 0x1F600 = 0xD83D \<and> lo10 0x1F600 = 0xDE00 \<and> spec_high 0x1F600 = 0xD83D \<and> spec_low 0x1F600 = 0xDE00"
  using surrogate_pair_matches_spec [of "0x1F600"]
  by (simp add: spec_high_def spec_low_def drop_bit_eq_div and_3ff)

lemma consoleChar_render:
  assumes "cp \<le> 0x10FFFF"
  shows "consoleChar cp = spec_render cp"
proof -
  consider "cp < 0x80" | "0x80 \<le> cp" "cp \<le> 0x513" | "0x513 < cp" "cp \<le> 0xFFFF" | "0xFFFF < cp"
    by linarith
  then show ?thesis
  proof cases
    case 1
    then have "cp < 256" by simp
    then show ?thesis using 1
      by (auto simp add: consoleChar_def spec_render_def printable_iff format_x2 hex2_def)
  next
    case 2
    then show ?thesis by (simp add: consoleChar_def spec_render_def)
  next
    case 3
    then have "cp < 65536" by simp
    then show ?thesis using 3 by (simp add: consoleChar_def spec_render_def format_x4 hex4_def)
  next
    case 4
    then have r: "0x10000 \<le> cp" by simp
    have "spec_high cp < 65536" using spec_high_range [OF r assms] by simp
    moreover have "spec_low cp < 65536" using spec_low_range [of cp] by simp
    ultimately show ?thesis using 4 assms
      by (simp add: consoleChar_def spec_render_def hi10_eq lo10_eq format_x4 hex4_def)
  qed
qed

section \<open>The reassembly step of the reader\<close>


lemma unat_byte_less: "unat (b :: byte) < 256"
  using unsigned_less [of b, where ?'a = nat] by simp

lemma is_cont_iff: "is_cont b = (128 \<le> unat b \<and> unat b < 192)"
  by (auto simp add: is_cont_def drop_bit_eq_div)

lemma expected_cont_le: "expected_cont b \<le> 3"
  by (simp add: expected_cont_def)

lemma scan_back_le: "scan_back bs n \<le> n"
  by (induction n) auto

lemma scan_back_zero_iff: "scan_back bs n = 0 \<longleftrightarrow> (\<forall>j<n. is_cont (bs ! j))"
  by (induction n) (auto simp add: less_Suc_eq)

lemma reassemble_append: "fst (reassemble bs) @ snd (reassemble bs) = bs"
  by (simp add: reassemble_def Let_def)

lemma reassemble_Nil: "reassemble [] = ([], [])"
  by (simp add: reassemble_def)

lemma reassemble_all_cont:
  assumes "list_all is_cont bs"
  shows "reassemble bs = ([], bs)"
proof -
  have "scan_back bs (length bs) = 0"
    using assms by (simp add: scan_back_zero_iff list_all_length)
  then show ?thesis by (simp add: reassemble_def)
qed

lemma reassemble_trail_short:
  assumes "\<not> list_all is_cont bs"
  shows "length (snd (reassemble bs)) \<le> 3"
proof -
  let ?i = "scan_back bs (length bs)"
  have pos: "0 < ?i"
    using assms scan_back_zero_iff [of bs "length bs"] by (auto simp add: list_all_length)
  have le: "?i \<le> length bs" by (rule scan_back_le)
  show ?thesis
  proof (cases "length bs - ?i < expected_cont (bs ! (?i - 1))")
    case True
    then have "length bs - ?i < 3" using expected_cont_le [of "bs ! (?i - 1)"] by linarith
    then show ?thesis using pos le True by (simp add: reassemble_def Let_def)
  next
    case False
    then show ?thesis using pos by (simp add: reassemble_def Let_def)
  qed
qed

text \<open>
  Claim C8, as the code has it. The reassembly step splits its input into the bytes
  passed on and the held trail. When the input has a byte that is not a continuation
  byte, the trail is at most 3 bytes long. When the input consists of continuation
  bytes only, the whole input is held back, whatever its length.
\<close>

theorem trail_bound:
  "fst (reassemble bytesIn) @ snd (reassemble bytesIn) = bytesIn \<and>
   (if list_all is_cont bytesIn
    then reassemble bytesIn = ([], bytesIn)
    else length (snd (reassemble bytesIn)) \<le> 3)"
  using reassemble_append [of bytesIn] reassemble_all_cont [of bytesIn] reassemble_trail_short [of bytesIn]
  by simp

theorem trail_bound_witness:
  "reassemble [0x41, 0xE2, 0x82] = ([0x41], [0xE2, 0x82]) \<and> reassemble [0x80, 0x80] = ([], [0x80, 0x80])"
  using trail_bound [of "[0x41, 0xE2, 0x82]"] trail_bound [of "[0x80, 0x80]"]
  by (simp add: reassemble_def is_cont_def expected_cont_def drop_bit_eq_div)

text \<open>
  Four continuation bytes received at the start of the stream are all held back: the
  trail is then 4 bytes long.
\<close>

theorem trail_longer_than_three:
  "\<not> length (trail (run_state (rokuReaderThread console_ok [Received [0x80, 0x80, 0x80, 0x80]] reader_init))) \<le> 3"
  by (simp add: reader_step_def reader_init_def reassemble_def is_cont_def drop_bit_eq_div console_ok_def Let_def)

lemma reader_step_empty: "trail st = [] \<Longrightarrow> reader_step console st (Received []) = Continue st"
  by (simp add: reader_step_def)

text \<open>
  Claim C9. An exception of \<open>recv\<close> ends the loop. An empty result of \<open>recv\<close> does not:
  after any number of empty reads the thread is unchanged and calls \<open>recv\<close> again.
\<close>

theorem empty_recv_does_not_end_loop:
  "rokuReaderThread console (replicate n (Received [])) reader_init = Waiting reader_init
   \<and> rokuReaderThread console (replicate n (Received []) @ [RecvError]) reader_init
       = Exited reader_init"
  by (induction n) (simp_all add: reader_step_empty reader_init_def reader_step_def)

theorem empty_recv_witness:
  "rokuReaderThread console_ok [Received [], Received [], Received []] reader_init
     = Waiting reader_init
   \<and> rokuReaderThread console_ok [Received [], Received [], Received [], RecvError] reader_init
       = Exited reader_init"
  using empty_recv_does_not_end_loop [of console_ok 3] by (simp add: numeral_3_eq_3)

section \<open>Valid UTF-8 across a split\<close>


lemma head_Chr_cases:
  assumes "fst (utf8_head b bs) = Chr c"
  shows "(unat b < 0x80 \<and> snd (utf8_head b bs) = 0)
       \<or> (0xC2 \<le> unat b \<and> unat b < 0xE0 \<and> snd (utf8_head b bs) = 1
            \<and> (\<exists>c2 r. bs = c2 # r \<and> is_cont c2))
       \<or> (0xE0 \<le> unat b \<and> unat b < 0xF0 \<and> snd (utf8_head b bs) = 2
            \<and> (\<exists>c2 c3 r. bs = c2 # c3 # r \<and> is_cont c2 \<and> is_cont c3))
       \<or> (0xF0 \<le> unat b \<and> unat b < 0xF5 \<and> snd (utf8_head b bs) = 3
            \<and> (\<exists>c2 c3 c4 r. bs = c2 # c3 # c4 # r \<and> is_cont c2 \<and> is_cont c3 \<and> is_cont c4))"
  using assms
  by (auto simp add: utf8_head_def Let_def split: list.splits if_splits)

lemma head_Chr_noncont: "fst (utf8_head b bs) = Chr c \<Longrightarrow> \<not> is_cont b"
  using head_Chr_cases [of b bs c] by (auto simp add: is_cont_iff)

lemma head_Chr_len: "fst (utf8_head b bs) = Chr c \<Longrightarrow> snd (utf8_head b bs) \<le> length bs"
  using head_Chr_cases [of b bs c] by auto

lemma head_Chr_conts: "fst (utf8_head b bs) = Chr c \<Longrightarrow> list_all is_cont (take (snd (utf8_head b bs)) bs)"
  using head_Chr_cases [of b bs c] by (auto simp add: numeral_2_eq_2 numeral_3_eq_3)

lemma head_Chr_expected: "fst (utf8_head b bs) = Chr c \<Longrightarrow> expected_cont b = snd (utf8_head b bs)"
  using head_Chr_cases [of b bs c] by (auto simp add: expected_cont_def drop_bit_eq_div)

lemma head_Chr_append: "fst (utf8_head b bs) = Chr c \<Longrightarrow> utf8_head b (bs @ r) = utf8_head b bs"
  by (auto simp add: utf8_head_def Let_def split: list.splits if_splits)

lemma head_Chr_take: "fst (utf8_head b bs) = Chr c \<Longrightarrow> utf8_head b (take (snd (utf8_head b bs)) bs) = utf8_head b bs"
  by (auto simp add: utf8_head_def Let_def numeral_2_eq_2 numeral_3_eq_3 split: list.splits if_splits)

lemma is_Chr_iff: "is_Chr x = (\<exists>c. x = Chr c)"
  by (cases x) auto

lemma valid_Nil: "utf8_valid []"
  by (simp add: utf8_valid_def)

lemma valid_Cons:
  "utf8_valid (b # bs) =
     (is_Chr (fst (utf8_head b bs)) \<and> utf8_valid (drop (snd (utf8_head b bs)) bs))"
  by (simp add: utf8_valid_def)

lemma items_append:
  "utf8_valid xs \<Longrightarrow> utf8_items (xs @ ys) = utf8_items xs @ utf8_items ys"
proof (induction xs rule: utf8_items.induct)
  case 1
  then show ?case by simp
next
  case (2 b bs)
  from "2.prems" obtain c where c: "fst (utf8_head b bs) = Chr c"
    and v: "utf8_valid (drop (snd (utf8_head b bs)) bs)"
    by (auto simp add: valid_Cons is_Chr_iff)
  have h: "utf8_head b (bs @ ys) = utf8_head b bs" using c by (rule head_Chr_append)
  have n: "snd (utf8_head b bs) \<le> length bs" using c by (rule head_Chr_len)
  show ?case using "2.IH" [OF v] h n by simp
qed

lemma valid_append: "utf8_valid xs \<Longrightarrow> utf8_valid (xs @ ys) = utf8_valid ys"
  by (simp add: utf8_valid_def items_append)

lemma valid_first_noncont: "utf8_valid ys \<Longrightarrow> ys \<noteq> [] \<Longrightarrow> \<not> is_cont (ys ! 0)"
  by (cases ys) (auto simp add: valid_Cons is_Chr_iff dest: head_Chr_noncont)

lemma scan_back_pos: "ys \<noteq> [] \<Longrightarrow> \<not> is_cont (ys ! 0) \<Longrightarrow> 0 < scan_back ys (length ys)"
  using scan_back_zero_iff [of ys "length ys"] by (cases "scan_back ys (length ys)") auto

lemma scan_back_front:
  "m \<le> length ys \<Longrightarrow> 0 < scan_back ys m \<Longrightarrow>
     scan_back (xs @ ys) (length xs + m) = length xs + scan_back ys m"
  by (induction m) (auto simp add: nth_append)

lemma reassemble_front:
  assumes "0 < scan_back ys (length ys)"
  shows "reassemble (xs @ ys) = (xs @ fst (reassemble ys), snd (reassemble ys))"
proof -
  let ?i = "scan_back ys (length ys)"
  have i: "scan_back (xs @ ys) (length (xs @ ys)) = length xs + ?i"
    using scan_back_front [of "length ys" ys xs] assms by simp
  have le: "?i \<le> length ys" by (rule scan_back_le)
  have e: "length xs + ?i - 1 = length xs + (?i - 1)" using assms by simp
  have lead: "(xs @ ys) ! (length xs + (?i - 1)) = ys ! (?i - 1)"
    by (simp add: nth_append)
  have tk: "take (length xs + (?i - 1)) (xs @ ys) = xs @ take (?i - 1) ys"
    by simp
  have dr: "drop (length xs + (?i - 1)) (xs @ ys) = drop (?i - 1) ys"
    by simp
  have nc: "length (xs @ ys) - (length xs + ?i) = length ys - ?i" by simp
  show ?thesis
    unfolding reassemble_def Let_def i e lead tk dr nc
    using assms by simp
qed

lemma scan_back_lead:
  "\<not> is_cont b \<Longrightarrow> m \<le> length cs \<Longrightarrow> list_all is_cont cs \<Longrightarrow> scan_back (b # cs) (Suc m) = Suc 0"
  by (induction m) (auto simp add: list_all_length)

lemma reassemble_lead:
  assumes "\<not> is_cont b" and "list_all is_cont cs"
  shows "reassemble (b # cs) =
           (if length cs < expected_cont b then ([], b # cs) else (b # cs, []))"
  using scan_back_lead [OF assms(1) order_refl assms(2)]
  by (simp add: reassemble_def Let_def)

lemma valid_reassemble:
  "utf8_valid xs \<Longrightarrow> xs \<noteq> [] \<Longrightarrow> reassemble xs = (xs, [])"
proof (induction xs rule: utf8_items.induct)
  case 1
  then show ?case by simp
next
  case (2 b bs)
  let ?n = "snd (utf8_head b bs)"
  from "2.prems" obtain c where c: "fst (utf8_head b bs) = Chr c"
    and v: "utf8_valid (drop ?n bs)"
    by (auto simp add: valid_Cons is_Chr_iff)
  have nc: "\<not> is_cont b" using c by (rule head_Chr_noncont)
  have conts: "list_all is_cont (take ?n bs)" using c by (rule head_Chr_conts)
  have ex: "expected_cont b = ?n" using c by (rule head_Chr_expected)
  have len: "?n \<le> length bs" using c by (rule head_Chr_len)
  show ?case
  proof (cases "drop ?n bs = []")
    case True
    then have all: "take ?n bs = bs" and l: "length bs = ?n" using len by auto
    have "list_all is_cont bs" using conts all by simp
    then show ?thesis using reassemble_lead [OF nc, of bs] ex l by simp
  next
    case False
    have ih: "reassemble (drop ?n bs) = (drop ?n bs, [])" using "2.IH" v False by simp
    have pos: "0 < scan_back (drop ?n bs) (length (drop ?n bs))"
      using False v by (intro scan_back_pos valid_first_noncont)
    have "reassemble ((b # take ?n bs) @ drop ?n bs) = ((b # take ?n bs) @ drop ?n bs, [])"
      using reassemble_front [OF pos, of "b # take ?n bs"] ih by simp
    then show ?thesis by simp
  qed
qed

lemma valid_single:
  assumes "fst (utf8_head b bs) = Chr c"
  shows "utf8_valid (b # take (snd (utf8_head b bs)) bs)"
  using head_Chr_take [OF assms] assms by (simp add: valid_Cons valid_Nil)

lemma valid_prefix:
  "utf8_valid bs \<Longrightarrow> utf8_valid (fst (reassemble (take k bs)))"
proof (induction bs arbitrary: k rule: utf8_items.induct)
  case 1
  then show ?case by (simp add: reassemble_def valid_Nil)
next
  case (2 b bs)
  let ?n = "snd (utf8_head b bs)"
  from "2.prems" obtain c where c: "fst (utf8_head b bs) = Chr c"
    and v: "utf8_valid (drop ?n bs)"
    by (auto simp add: valid_Cons is_Chr_iff)
  have nc: "\<not> is_cont b" using c by (rule head_Chr_noncont)
  have conts: "list_all is_cont (take ?n bs)" using c by (rule head_Chr_conts)
  have ex: "expected_cont b = ?n" using c by (rule head_Chr_expected)
  have len: "?n \<le> length bs" using c by (rule head_Chr_len)
  have one: "utf8_valid (b # take ?n bs)" using c by (rule valid_single)
  show ?case
  proof (cases k)
    case 0
    then show ?thesis by (simp add: reassemble_def valid_Nil)
  next
    case (Suc k1)
    show ?thesis
    proof (cases "k1 < ?n")
      case True
      have "take k1 bs = take k1 (take ?n bs)" using True by (simp add: min_def)
      then have cs: "list_all is_cont (take k1 bs)"
        using conts by (metis append_take_drop_id list_all_append)
      have "length (take k1 bs) < expected_cont b" using True len ex by simp
      then have "reassemble (b # take k1 bs) = ([], b # take k1 bs)"
        using reassemble_lead [OF nc cs] by simp
      then show ?thesis using Suc by (simp add: valid_Nil)
    next
      case False
      let ?ys = "take (k1 - ?n) (drop ?n bs)"
      have split: "take k1 bs = take ?n bs @ ?ys"
        using False take_add [of ?n "k1 - ?n" bs] by simp
      show ?thesis
      proof (cases "?ys = []")
        case True
        have "length (take ?n bs) = ?n" using len by simp
        then have "reassemble (b # take ?n bs) = (b # take ?n bs, [])"
          using reassemble_lead [OF nc conts] ex by simp
        then show ?thesis using Suc split True one by simp
      next
        case ne: False
        then have tne: "drop ?n bs \<noteq> []" by auto
        have "?ys ! 0 = drop ?n bs ! 0" using ne by (cases "k1 - ?n") auto
        then have "\<not> is_cont (?ys ! 0)" using valid_first_noncont [OF v tne] by simp
        then have pos: "0 < scan_back ?ys (length ?ys)" using ne by (intro scan_back_pos)
        have ih: "utf8_valid (fst (reassemble ?ys))" using "2.IH" [OF v] .
        have "reassemble ((b # take ?n bs) @ ?ys)
                = ((b # take ?n bs) @ fst (reassemble ?ys), snd (reassemble ?ys))"
          by (rule reassemble_front [OF pos])
        moreover have "utf8_valid ((b # take ?n bs) @ fst (reassemble ?ys))"
          using one ih by (simp only: valid_append)
        ultimately show ?thesis using Suc split by simp
      qed
    qed
  qed
qed

lemma consoleFormat_append:
  "utf8_valid xs \<Longrightarrow> consoleFormat (xs @ ys) = consoleFormat xs @ consoleFormat ys"
  by (simp add: consoleFormat_def decode_backslashreplace_def items_append)

lemma consoleFormat_Nil: "consoleFormat [] = []"
  by (simp add: consoleFormat_def decode_backslashreplace_def)

lemma reader_step_ok:
  "reader_step console_ok st (Received data) =
     Continue (if trail st @ data = [] then st
               else st\<lparr>trail := snd (reassemble (trail st @ data)),
                       logged := logged st @ [trail st @ data],
                       shown := shown st @ [consoleFormat (fst (reassemble (trail st @ data)))]\<rparr>)"
  by (simp add: reader_step_def console_ok_def Let_def)

lemma reader_whole:
  assumes "utf8_valid bs"
  shows "concat (shown (run_state (rokuReaderThread console_ok [Received bs] reader_init)))
           = consoleFormat bs
       \<and> trail (run_state (rokuReaderThread console_ok [Received bs] reader_init)) = []"
proof (cases "bs = []")
  case True
  then show ?thesis by (simp add: reader_step_ok reader_init_def consoleFormat_Nil)
next
  case False
  then show ?thesis
    using valid_reassemble [OF assms False] by (simp add: reader_step_ok reader_init_def)
qed

lemma reader_split:
  assumes "utf8_valid bs"
  shows "concat (shown (run_state (rokuReaderThread console_ok
                   [Received (take k bs), Received (drop k bs)] reader_init)))
           = consoleFormat bs
       \<and> trail (run_state (rokuReaderThread console_ok
                   [Received (take k bs), Received (drop k bs)] reader_init)) = []"
proof -
  define c1 where "c1 = take k bs"
  define c2 where "c2 = drop k bs"
  define e where "e = fst (reassemble c1)"
  define t where "t = snd (reassemble c1)"
  define r where "r = t @ c2"
  have re: "reassemble c1 = (e, t)" by (simp add: e_def t_def)
  have ve: "utf8_valid e" unfolding e_def c1_def using assms by (rule valid_prefix)
  have et: "e @ t = c1" unfolding e_def t_def by (rule reassemble_append)
  have "(e @ t) @ c2 = bs" unfolding et by (simp add: c1_def c2_def)
  then have whole: "e @ r = bs" by (simp add: r_def)
  have vr: "utf8_valid r" using assms ve whole valid_append [of e r] by simp
  have fmt: "consoleFormat e @ consoleFormat r = consoleFormat bs"
    using consoleFormat_append [OF ve, of r] whole by simp
  have rr: "r \<noteq> [] \<Longrightarrow> reassemble r = (r, [])" using vr by (rule valid_reassemble)
  have empty1: "c1 = [] \<Longrightarrow> e = [] \<and> t = []"
    by (simp add: e_def t_def reassemble_Nil)
  define s1 where "s1 = (if c1 = [] then reader_init
     else \<lparr>trail = t, logged = [c1], shown = [consoleFormat e]\<rparr>)"
  have step1: "reader_step console_ok reader_init (Received c1) = Continue s1"
    by (simp add: reader_step_ok reader_init_def s1_def re)
  have ts1: "trail s1 = t" using empty1 by (simp add: s1_def reader_init_def)
  have sh1: "concat (shown s1) = consoleFormat e"
    using empty1 by (simp add: s1_def reader_init_def consoleFormat_Nil)
  define s2 where "s2 = (if r = [] then s1
     else s1\<lparr>trail := [], logged := logged s1 @ [r], shown := shown s1 @ [consoleFormat r]\<rparr>)"
  have step2: "reader_step console_ok s1 (Received c2) = Continue s2"
    unfolding reader_step_ok ts1 r_def [symmetric] s2_def using rr by simp
  have run: "rokuReaderThread console_ok [Received c1, Received c2] reader_init = Waiting s2"
    by (simp add: step1 step2)
  have sh2: "concat (shown s2) = consoleFormat bs"
    using sh1 fmt by (auto simp add: s2_def consoleFormat_Nil)
  have tr2: "trail s2 = []" using ts1 by (simp add: s2_def r_def)
  show ?thesis using run sh2 tr2 by (simp add: c1_def c2_def)
qed

text \<open>
  Claim C1. A valid UTF-8 byte sequence is split at any byte offset and the two chunks
  are received one after the other by the reader thread (held trail prepended, new
  partial sequence stripped). The texts written to the console, concatenated, are
  \<open>consoleFormat\<close> of the whole sequence, which is also what is written when the sequence
  is received in one piece; no trail is left over.
\<close>

theorem split_renders_as_whole:
  assumes "utf8_valid bs"
  shows "concat (shown (run_state (rokuReaderThread console_ok
                   [Received (take k bs), Received (drop k bs)] reader_init)))
           = consoleFormat bs
       \<and> concat (shown (run_state (rokuReaderThread console_ok
                   [Received (take k bs), Received (drop k bs)] reader_init)))
           = concat (shown (run_state (rokuReaderThread console_ok [Received bs] reader_init)))
       \<and> trail (run_state (rokuReaderThread console_ok
                   [Received (take k bs), Received (drop k bs)] reader_init)) = []"
  using reader_split [OF assms, of k] reader_whole [OF assms] by simp

theorem split_renders_as_whole_witness:
  "utf8_valid [0x41, 0xE2, 0x82, 0xAC]
   \<and> concat (shown (run_state (rokuReaderThread console_ok
                [Received [0x41, 0xE2], Received [0x82, 0xAC]] reader_init)))
       = consoleFormat [0x41, 0xE2, 0x82, 0xAC]"
proof -
  have v: "utf8_valid [0x41, 0xE2, 0x82, 0xAC]"
    by (simp add: utf8_valid_def utf8_head_def is_cont_def drop_bit_eq_div)
  show ?thesis
    using v split_renders_as_whole [OF v, of 2] by (simp add: numeral_2_eq_2)
qed

section \<open>The console thread\<close>


lemma and_low_bits:
  "(v::nat) AND 0x3F = v mod 64" "(v::nat) AND 0x1F = v mod 32"
  "(v::nat) AND 0x0F = v mod 16" "(v::nat) AND 0x07 = v mod 8"
proof -
  have m: "(0x3F::nat) = mask 6" "(0x1F::nat) = mask 5" "(0x0F::nat) = mask 4" "(0x07::nat) = mask 3"
    by (simp_all add: mask_eq_exp_minus_1)
  show "(v::nat) AND 0x3F = v mod 64" "(v::nat) AND 0x1F = v mod 32"
       "(v::nat) AND 0x0F = v mod 16" "(v::nat) AND 0x07 = v mod 8"
    unfolding m by (simp_all add: take_bit_eq_mod flip: take_bit_eq_mask)
qed

lemma mod_lead3: "x < 16 \<Longrightarrow> (224 + x) mod 16 = (x::nat)"
proof -
  assume a: "x < 16"
  have "(224 + x) mod 16 = (x + 14 * 16) mod 16" by (simp add: add.commute)
  also have "\<dots> = x mod 16" by (rule mod_mult_self1)
  finally show ?thesis using a by simp
qed

lemma mod_lead4: "x < 8 \<Longrightarrow> (240 + x) mod 8 = (x::nat)"
proof -
  assume a: "x < 8"
  have "(240 + x) mod 8 = (x + 30 * 8) mod 8" by (simp add: add.commute)
  also have "\<dots> = x mod 8" by (rule mod_mult_self1)
  finally show ?thesis using a by simp
qed

lemma mod_cont: "x < 64 \<Longrightarrow> (128 + x) mod 64 = (x::nat)"
proof -
  assume a: "x < 64"
  have "(128 + x) mod 64 = (x + 2 * 64) mod 64" by (simp add: add.commute)
  also have "\<dots> = x mod 64" by (rule mod_mult_self1)
  finally show ?thesis using a by simp
qed

lemma three_byte_scalar:
  fixes b c2 c3 :: nat
  assumes "224 \<le> b" "b < 240" "128 \<le> c2" "c2 < 192" "128 \<le> c3" "c3 < 192"
    and "\<not> (if c2 < 160 then b = 224 else b = 237)"
  shows "encodable_cp (b mod 16 * 4096 + c2 mod 64 * 64 + c3 mod 64)"
proof -
  define x y z where "x = b - 224" and "y = c2 - 128" and "z = c3 - 128"
  have x: "b = 224 + x" and y: "c2 = 128 + y" and z: "c3 = 128 + z"
    using assms(1,3,5) by (simp_all add: x_def y_def z_def)
  have bx: "x < 16" and ly: "y < 64" and bz: "z < 64" using assms(2,4,6) x y z by simp_all
  have v: "b mod 16 * 4096 + c2 mod 64 * 64 + c3 mod 64 = x * 4096 + y * 64 + z"
    by (simp add: mod_lead3 mod_cont x y z bx ly bz)
  consider "x \<le> 12" | "x = 13" | "14 \<le> x" by linarith
  then have "x * 4096 + y * 64 + z < 55296 \<or>
             (57343 < x * 4096 + y * 64 + z \<and> x * 4096 + y * 64 + z < 1114112)"
  proof cases
    case 1
    then show ?thesis using ly bz by linarith
  next
    case 2
    then have "y < 32" using assms(7) x y by (simp split: if_splits)
    then show ?thesis using 2 bz by linarith
  next
    case 3
    then show ?thesis using bx ly bz by linarith
  qed
  then show ?thesis by (simp add: encodable_cp_def v)
qed

lemma four_byte_scalar:
  fixes b c2 c3 c4 :: nat
  assumes "240 \<le> b" "b < 245" "128 \<le> c2" "c2 < 192" "128 \<le> c3" "c3 < 192" "128 \<le> c4" "c4 < 192"
    and "\<not> (if c2 < 144 then b = 240 else b = 244)"
  shows "encodable_cp (b mod 8 * 262144 + c2 mod 64 * 4096 + c3 mod 64 * 64 + c4 mod 64)"
proof -
  define x y z w where "x = b - 240" and "y = c2 - 128" and "z = c3 - 128" and "w = c4 - 128"
  have x: "b = 240 + x" and y: "c2 = 128 + y" and z: "c3 = 128 + z" and w: "c4 = 128 + w"
    using assms(1,3,5,7) by (simp_all add: x_def y_def z_def w_def)
  have bx: "x < 5" and ly: "y < 64" and bz: "z < 64" and bw: "w < 64"
    using assms(2,4,6,8) x y z w by simp_all
  have v: "b mod 8 * 262144 + c2 mod 64 * 4096 + c3 mod 64 * 64 + c4 mod 64
             = x * 262144 + y * 4096 + z * 64 + w"
    using bx by (simp add: mod_lead4 mod_cont x y z w ly bz bw)
  consider "x = 0" | "1 \<le> x" "x \<le> 3" | "x = 4" using bx by linarith
  then have "57343 < x * 262144 + y * 4096 + z * 64 + w \<and>
             x * 262144 + y * 4096 + z * 64 + w < 1114112"
  proof cases
    case 1
    then have "16 \<le> y" using assms(9) x y by (simp split: if_splits)
    then show ?thesis using 1 ly bz bw by linarith
  next
    case 2
    then show ?thesis using ly bz bw by linarith
  next
    case 3
    then have "y < 16" using assms(9) x y by (simp split: if_splits)
    then show ?thesis using 3 bz bw by linarith
  qed
  then show ?thesis by (simp add: encodable_cp_def v)
qed

lemma two_byte_scalar:
  fixes b c2 :: nat
  shows "encodable_cp (b mod 32 * 64 + c2 mod 64)"
proof -
  have "b mod 32 < 32" "c2 mod 64 < 64" by simp_all
  then have "b mod 32 * 64 + c2 mod 64 < 2048" by linarith
  then show ?thesis by (simp add: encodable_cp_def)
qed

lemma ascii_scalar: "n < 128 \<Longrightarrow> encodable_cp n"
  by (simp add: encodable_cp_def)

lemma head_Chr_encodable:
  assumes "fst (utf8_head b bs) = Chr c"
  shows "encodable_cp c"
  using assms unat_byte_less [of b]
  by (auto simp add: utf8_head_def Let_def is_cont_iff and_low_bits push_bit_eq_mult
        ascii_scalar two_byte_scalar three_byte_scalar four_byte_scalar
      simp del: mult_numeral_left_semiring_numeral
      split: list.splits if_splits intro: less_imp_le)

lemma items_encodable: "list_all encodable_cp (concat (map item_replace (utf8_items bs)))"
proof (induction bs rule: utf8_items.induct)
  case 1
  then show ?case by simp
next
  case (2 b bs)
  have "list_all encodable_cp (item_replace (fst (utf8_head b bs)))"
  proof (cases "fst (utf8_head b bs)")
    case (Chr c)
    then show ?thesis using head_Chr_encodable [of b bs c] by simp
  next
    case (Bad span)
    then show ?thesis by (simp add: encodable_cp_def)
  qed
  then show ?case using 2 by simp
qed

lemma decode_replace_encodable: "list_all encodable_cp (decode_replace bs)"
  by (simp add: decode_replace_def items_encodable)

lemma str_encode_encodable:
  "list_all encodable_cp s \<Longrightarrow> str_encode s = Some (concat (map utf8_of_cp s))"
  by (induction s) (simp_all add: encode_cp_def)

lemma startswith_iff: "startswith s p = (\<exists>post. s = p @ post)"
  by (induction s p rule: startswith.induct) auto

lemma contains_iff: "contains sub s = (\<exists>pre post. s = pre @ sub @ post)"
proof (induction s)
  case Nil
  then show ?case by simp
next
  case (Cons c cs)
  show ?case
  proof
    assume "contains sub (c # cs)"
    then consider "startswith (c # cs) sub" | "contains sub cs" by auto
    then show "\<exists>pre post. c # cs = pre @ sub @ post"
    proof cases
      case 1
      then obtain post where "c # cs = sub @ post" by (auto simp add: startswith_iff)
      then have "c # cs = [] @ sub @ post" by simp
      then show ?thesis by blast
    next
      case 2
      then obtain pre post where "cs = pre @ sub @ post" using Cons.IH by auto
      then have "c # cs = (c # pre) @ sub @ post" by simp
      then show ?thesis by blast
    qed
  next
    assume "\<exists>pre post. c # cs = pre @ sub @ post"
    then obtain pre post where e: "c # cs = pre @ sub @ post" by auto
    show "contains sub (c # cs)"
    proof (cases pre)
      case Nil
      then have "startswith (c # cs) sub" using e by (auto simp add: startswith_iff)
      then show ?thesis by simp
    next
      case (Cons p ps)
      then have "cs = ps @ sub @ post" using e by simp
      then have "contains sub cs" using Cons.IH by auto
      then show ?thesis by simp
    qed
  qed
qed

lemma reTrail_no_cr: "13 \<notin> set (reTrail_search s)"
  by (induction s) auto

lemma findall_subset: "l \<in> set (reLines_findall s) \<Longrightarrow> set l \<subseteq> set s"
proof (induction s rule: reLines_findall.induct)
  case (1 s)
  define tw where "tw = takeWhile (\<lambda>c. c \<noteq> 13) s"
  show ?case
  proof (cases "dropWhile (\<lambda>c. c \<noteq> 13) s")
    case Nil
    have "reLines_findall s = []" unfolding reLines_findall.simps [of s] Nil by simp
    then show ?thesis using "1.prems" by simp
  next
    case (Cons cr rest)
    have "tw @ cr # rest = s"
      unfolding tw_def Cons [symmetric] by (rule takeWhile_dropWhile_id)
    then have "set (tw @ cr # rest) = set s" by (rule arg_cong)
    then have ss: "set s = set tw \<union> insert cr (set rest)" by simp
    have "reLines_findall s = (tw @ [cr]) # reLines_findall rest"
      unfolding tw_def reLines_findall.simps [of s] Cons by simp
    then have "l = tw @ [cr] \<or> l \<in> set (reLines_findall rest)"
      using "1.prems" by simp
    then show ?thesis
    proof
      assume "l = tw @ [cr]"
      then show ?thesis using ss by auto
    next
      assume "l \<in> set (reLines_findall rest)"
      then have "set l \<subseteq> set rest" using "1.IH" Cons by simp
      then show ?thesis using ss by auto
    qed
  qed
qed


lemma relay_lines_ok:
  "list_all (list_all encodable_cp) ls \<Longrightarrow>
   relay_lines ls st =
     Continue (st\<lparr>printed := printed st @ map rstrip_cr ls,
                   queued := queued st @ map (\<lambda>l. concat (map utf8_of_cp l) @ [0x0A]) ls\<rparr>)"
proof (induction ls arbitrary: st)
  case Nil
  then show ?case by simp
next
  case (Cons l ls)
  then show ?case by (simp add: str_encode_encodable Let_def)
qed

lemma findall_encodable:
  assumes "list_all encodable_cp s"
  shows "list_all (list_all encodable_cp) (reLines_findall s)"
  using assms findall_subset [of _ s] by (auto simp add: list_all_iff)

lemma relay_lines_keeps:
  "charBuf (step_state (relay_lines ls st)) = charBuf st
   \<and> clogged (step_state (relay_lines ls st)) = clogged st"
  by (induction ls arbitrary: st) (auto simp add: Let_def split: option.splits)

lemma step_quit:
  assumes "bytesIn \<noteq> []" and "contains quit_cmd (charBuf st @ decode_replace bytesIn)"
  shows "console_step st (Received bytesIn) =
           Break (st\<lparr>clogged := clogged st @ [bytesIn @ [0x0A]],
                      charBuf := charBuf st @ decode_replace bytesIn\<rparr>)"
  using assms by (simp add: console_step_def Let_def)

lemma step_break:
  assumes "bytesIn \<noteq> []" and "\<not> contains quit_cmd (charBuf st @ decode_replace bytesIn)"
    and "contains break_cmd (charBuf st @ decode_replace bytesIn)"
  shows "console_step st (Received bytesIn) =
           Continue (st\<lparr>clogged := clogged st @ [bytesIn @ [0x0A]],
                         printed := printed st @ [breaking_msg],
                         charBuf := [],
                         queued := queued st @ [[0x03]]\<rparr>)"
  using assms by (simp add: console_step_def Let_def)

lemma step_lines:
  assumes "bytesIn \<noteq> []" and "\<not> contains quit_cmd (charBuf st @ decode_replace bytesIn)"
    and "\<not> contains break_cmd (charBuf st @ decode_replace bytesIn)"
    and "list_all encodable_cp (charBuf st)"
  shows "console_step st (Received bytesIn) =
           Continue (st\<lparr>clogged := clogged st @ [bytesIn @ [0x0A]],
                         printed := printed st
                            @ map rstrip_cr (reLines_findall (charBuf st @ decode_replace bytesIn)),
                         queued := queued st
                            @ map (\<lambda>l. concat (map utf8_of_cp l) @ [0x0A])
                                  (reLines_findall (charBuf st @ decode_replace bytesIn)),
                         charBuf := reTrail_search (charBuf st @ decode_replace bytesIn)\<rparr>)"
proof -
  have "list_all encodable_cp (charBuf st @ decode_replace bytesIn)"
    using assms(4) decode_replace_encodable [of bytesIn] by simp
  then have "list_all (list_all encodable_cp) (reLines_findall (charBuf st @ decode_replace bytesIn))"
    by (rule findall_encodable)
  then show ?thesis
    using assms(1-3) by (simp add: console_step_def Let_def relay_lines_ok)
qed

lemma step_no_cr:
  "console_step st r = Continue st' \<Longrightarrow> 13 \<notin> set (charBuf st')"
  using reTrail_no_cr
  by (auto simp add: console_step_def Let_def split: recv_result.splits if_splits step.splits)

lemma step_clogged:
  "bytesIn \<noteq> [] \<Longrightarrow>
   clogged (step_state (console_step st (Received bytesIn))) = clogged st @ [bytesIn @ [0x0A]]"
  using relay_lines_keeps [of "reLines_findall (charBuf st @ decode_replace bytesIn)"
      "st\<lparr>clogged := clogged st @ [bytesIn @ [0x0A]], charBuf := charBuf st @ decode_replace bytesIn\<rparr>"]
  by (auto simp add: console_step_def Let_def split: step.splits)


lemma thread_no_cr:
  "13 \<notin> set (charBuf st0) \<Longrightarrow> consoleThread rs st0 = Waiting st \<Longrightarrow> 13 \<notin> set (charBuf st)"
proof (induction rs arbitrary: st0)
  case Nil
  then show ?case by simp
next
  case (Cons r rs)
  show ?case
  proof (cases "console_step st0 r")
    case (Continue s1)
    then have "13 \<notin> set (charBuf s1)" by (rule step_no_cr)
    moreover have "consoleThread rs s1 = Waiting st" using Cons.prems(2) Continue by simp
    ultimately show ?thesis by (rule Cons.IH)
  next
    case (Break s1)
    then show ?thesis using Cons.prems(2) by simp
  qed
qed

text \<open>
  Claim C4. Receiving \<open>"abc\rdef\rgh"\<close> echoes the lines \<open>abc\<close> and \<open>def\<close> (terminator
  stripped), queues them for the Roku and keeps \<open>gh\<close> in the buffer; receiving \<open>"i\r"\<close>
  next echoes \<open>ghi\<close> and leaves the buffer empty. Whenever the thread goes on to its next
  \<open>recv\<close>, the buffer it keeps contains no CR.
\<close>

theorem line_framing:
  "consoleThread [Received [0x61, 0x62, 0x63, 0x0D, 0x64, 0x65, 0x66, 0x0D, 0x67, 0x68]] console_init
     = Waiting \<lparr>charBuf = [0x67, 0x68],
         clogged = [[0x61, 0x62, 0x63, 0x0D, 0x64, 0x65, 0x66, 0x0D, 0x67, 0x68, 0x0A]],
         queued = [[0x61, 0x62, 0x63, 0x0D, 0x0A], [0x64, 0x65, 0x66, 0x0D, 0x0A]],
         printed = [[0x61, 0x62, 0x63], [0x64, 0x65, 0x66]]\<rparr>
   \<and> consoleThread [Received [0x61, 0x62, 0x63, 0x0D, 0x64, 0x65, 0x66, 0x0D, 0x67, 0x68],
                     Received [0x69, 0x0D]] console_init
     = Waiting \<lparr>charBuf = [],
         clogged = [[0x61, 0x62, 0x63, 0x0D, 0x64, 0x65, 0x66, 0x0D, 0x67, 0x68, 0x0A],
                    [0x69, 0x0D, 0x0A]],
         queued = [[0x61, 0x62, 0x63, 0x0D, 0x0A], [0x64, 0x65, 0x66, 0x0D, 0x0A],
                   [0x67, 0x68, 0x69, 0x0D, 0x0A]],
         printed = [[0x61, 0x62, 0x63], [0x64, 0x65, 0x66], [0x67, 0x68, 0x69]]\<rparr>
   \<and> (consoleThread rs console_init = Waiting st \<longrightarrow> 13 \<notin> set (charBuf st))"
proof -
  have inv: "consoleThread rs console_init = Waiting st \<longrightarrow> 13 \<notin> set (charBuf st)"
    using thread_no_cr [of console_init rs st] by (simp add: console_init_def)
  have one: "consoleThread [Received [0x61, 0x62, 0x63, 0x0D, 0x64, 0x65, 0x66, 0x0D, 0x67, 0x68]] console_init
     = Waiting \<lparr>charBuf = [0x67, 0x68],
         clogged = [[0x61, 0x62, 0x63, 0x0D, 0x64, 0x65, 0x66, 0x0D, 0x67, 0x68, 0x0A]],
         queued = [[0x61, 0x62, 0x63, 0x0D, 0x0A], [0x64, 0x65, 0x66, 0x0D, 0x0A]],
         printed = [[0x61, 0x62, 0x63], [0x64, 0x65, 0x66]]\<rparr>"
    by (simp add: console_step_def console_init_def decode_replace_def utf8_head_def
        reLines_findall.simps quit_cmd_def break_cmd_def encode_cp_def encodable_cp_def
        utf8_of_cp_def rstrip_cr_def Let_def)
  have two: "consoleThread [Received [0x61, 0x62, 0x63, 0x0D, 0x64, 0x65, 0x66, 0x0D, 0x67, 0x68],
                     Received [0x69, 0x0D]] console_init
     = Waiting \<lparr>charBuf = [],
         clogged = [[0x61, 0x62, 0x63, 0x0D, 0x64, 0x65, 0x66, 0x0D, 0x67, 0x68, 0x0A],
                    [0x69, 0x0D, 0x0A]],
         queued = [[0x61, 0x62, 0x63, 0x0D, 0x0A], [0x64, 0x65, 0x66, 0x0D, 0x0A],
                   [0x67, 0x68, 0x69, 0x0D, 0x0A]],
         printed = [[0x61, 0x62, 0x63], [0x64, 0x65, 0x66], [0x67, 0x68, 0x69]]\<rparr>"
    by (simp add: console_step_def console_init_def decode_replace_def utf8_head_def
        reLines_findall.simps quit_cmd_def break_cmd_def encode_cp_def encodable_cp_def
        utf8_of_cp_def rstrip_cr_def Let_def)
  show ?thesis using one two inv by blast
qed

theorem line_framing_witness:
  "consoleThread [Received [0x67, 0x0D, 0x68]] console_init
     = Waiting \<lparr>charBuf = [0x68], clogged = [[0x67, 0x0D, 0x68, 0x0A]],
                 queued = [[0x67, 0x0D, 0x0A]], printed = [[0x67]]\<rparr>
   \<and> 13 \<notin> set (charBuf \<lparr>charBuf = [0x68], clogged = [[0x67, 0x0D, 0x68, 0x0A]],
                 queued = [[0x67, 0x0D, 0x0A]], printed = [[0x67]]\<rparr>)"
proof -
  have run: "consoleThread [Received [0x67, 0x0D, 0x68]] console_init
     = Waiting \<lparr>charBuf = [0x68], clogged = [[0x67, 0x0D, 0x68, 0x0A]],
                 queued = [[0x67, 0x0D, 0x0A]], printed = [[0x67]]\<rparr>"
    by (simp add: console_step_def console_init_def decode_replace_def utf8_head_def
        reLines_findall.simps quit_cmd_def break_cmd_def encode_cp_def encodable_cp_def
        utf8_of_cp_def rstrip_cr_def Let_def)
  show ?thesis
    using run line_framing [of "[Received [0x67, 0x0D, 0x68]]"
        "\<lparr>charBuf = [0x68], clogged = [[0x67, 0x0D, 0x68, 0x0A]],
                 queued = [[0x67, 0x0D, 0x0A]], printed = [[0x67]]\<rparr>"]
    by blast
qed


lemma reTrail_subset: "set (reTrail_search s) \<subseteq> set s"
  by (induction s) auto

text \<open>
  The buffer only ever holds output of the decoder, which \<open>line.encode()\<close> accepts: the
  property is kept by every iteration that goes on.
\<close>

lemma step_keeps_encodable:
  assumes "list_all encodable_cp (charBuf st)" and "console_step st r = Continue st'"
  shows "list_all encodable_cp (charBuf st')"
proof (cases r)
  case RecvError
  then show ?thesis using assms(2) by (simp add: console_step_def)
next
  case (Received bytesIn)
  let ?buf = "charBuf st @ decode_replace bytesIn"
  have enc: "list_all encodable_cp ?buf"
    using assms(1) decode_replace_encodable [of bytesIn] by simp
  have "list_all encodable_cp (reTrail_search ?buf)"
    using enc reTrail_subset [of ?buf] by (auto simp add: list_all_iff)
  moreover have "charBuf st' = [] \<or> charBuf st' = reTrail_search ?buf"
    using assms(2) Received
    by (auto simp add: console_step_def Let_def split: if_splits step.splits)
  ultimately show ?thesis by auto
qed

text \<open>
  Claim C5, as the code has it. Before any line is extracted, the buffer is tested for
  the literal lower-case substrings \<open>quit\r\<close> and then \<open>break\r\<close>; the tests are
  case-sensitive. A buffer that contains neither literal, such as \<open>QUIT\r\<close> or \<open>Break\r\<close>,
  goes through the normal line extraction and is relayed. The buffer is one that holds
  decoder output, as every buffer of the thread does.
\<close>

theorem commands_case_sensitive:
  assumes "bytesIn \<noteq> []" and "list_all encodable_cp (charBuf st)"
  shows "console_step st (Received bytesIn) =
    (if contains quit_cmd (charBuf st @ decode_replace bytesIn) then
       Break (st\<lparr>clogged := clogged st @ [bytesIn @ [0x0A]],
                  charBuf := charBuf st @ decode_replace bytesIn\<rparr>)
     else if contains break_cmd (charBuf st @ decode_replace bytesIn) then
       Continue (st\<lparr>clogged := clogged st @ [bytesIn @ [0x0A]],
                     printed := printed st @ [breaking_msg],
                     charBuf := [],
                     queued := queued st @ [[0x03]]\<rparr>)
     else
       Continue (st\<lparr>clogged := clogged st @ [bytesIn @ [0x0A]],
                     printed := printed st
                        @ map rstrip_cr (reLines_findall (charBuf st @ decode_replace bytesIn)),
                     queued := queued st
                        @ map (\<lambda>l. concat (map utf8_of_cp l) @ [0x0A])
                              (reLines_findall (charBuf st @ decode_replace bytesIn)),
                     charBuf := reTrail_search (charBuf st @ decode_replace bytesIn)\<rparr>))"
  using step_quit [OF assms(1), of st] step_break [OF assms(1), of st]
    step_lines [OF assms(1) _ _ assms(2)]
  by simp

theorem commands_case_sensitive_witness:
  "console_step console_init (Received [0x42, 0x72, 0x65, 0x61, 0x6B, 0x0D])
     = Continue \<lparr>charBuf = [], clogged = [[0x42, 0x72, 0x65, 0x61, 0x6B, 0x0D, 0x0A]],
                  queued = [[0x42, 0x72, 0x65, 0x61, 0x6B, 0x0D, 0x0A]],
                  printed = [[0x42, 0x72, 0x65, 0x61, 0x6B]]\<rparr>"
  using commands_case_sensitive [of "[0x42, 0x72, 0x65, 0x61, 0x6B, 0x0D]" console_init]
  by (simp add: console_step_def console_init_def decode_replace_def utf8_head_def
        reLines_findall.simps quit_cmd_def break_cmd_def encode_cp_def encodable_cp_def
        utf8_of_cp_def rstrip_cr_def Let_def)

text \<open>The upper-case \<open>QUIT\r\<close> does not end the session: it is relayed as a line.\<close>

theorem uppercase_quit_is_relayed:
  "consoleThread [Received [0x51, 0x55, 0x49, 0x54, 0x0D]] console_init
     = Waiting \<lparr>charBuf = [], clogged = [[0x51, 0x55, 0x49, 0x54, 0x0D, 0x0A]],
                 queued = [[0x51, 0x55, 0x49, 0x54, 0x0D, 0x0A]],
                 printed = [[0x51, 0x55, 0x49, 0x54]]\<rparr>"
  by (simp add: console_step_def console_init_def decode_replace_def utf8_head_def
        reLines_findall.simps quit_cmd_def break_cmd_def encode_cp_def encodable_cp_def
        utf8_of_cp_def rstrip_cr_def Let_def)

text \<open>
  Claim C6, as the code has it. When the buffer contains \<open>quit\r\<close>, the loop of the console
  thread ends and nothing is put on the queue for that input. When the buffer contains
  \<open>break\r\<close> and no \<open>quit\r\<close>, exactly the one byte \<open>0x03\<close> is put on the queue, no line is
  relayed, and the buffer is cleared.
\<close>

theorem break_and_quit_interception:
  assumes "bytesIn \<noteq> []"
  shows "(contains quit_cmd (charBuf st @ decode_replace bytesIn) \<longrightarrow>
            consoleThread (Received bytesIn # rs) st =
              Exited (st\<lparr>clogged := clogged st @ [bytesIn @ [0x0A]],
                          charBuf := charBuf st @ decode_replace bytesIn\<rparr>))
       \<and> (contains break_cmd (charBuf st @ decode_replace bytesIn)
            \<and> \<not> contains quit_cmd (charBuf st @ decode_replace bytesIn) \<longrightarrow>
            consoleThread (Received bytesIn # rs) st =
              consoleThread rs (st\<lparr>clogged := clogged st @ [bytesIn @ [0x0A]],
                                    printed := printed st @ [breaking_msg],
                                    charBuf := [],
                                    queued := queued st @ [[0x03]]\<rparr>))"
  using step_quit [OF assms, of st] step_break [OF assms, of st] by simp

theorem break_and_quit_interception_witness:
  "consoleThread [Received [98, 114, 101, 97, 107, 13]] console_init
     = Waiting \<lparr>charBuf = [], clogged = [[98, 114, 101, 97, 107, 13, 10]],
                 queued = [[0x03]], printed = [breaking_msg]\<rparr>
   \<and> consoleThread [Received [113, 117, 105, 116, 13], Received [0x61, 0x0D]] console_init
     = Exited \<lparr>charBuf = [113, 117, 105, 116, 13], clogged = [[113, 117, 105, 116, 13, 10]],
                queued = [], printed = []\<rparr>"
  using break_and_quit_interception [of "[98, 114, 101, 97, 107, 13]" console_init "[]"]
    break_and_quit_interception [of "[113, 117, 105, 116, 13]" console_init "[Received [0x61, 0x0D]]"]
  by (simp add: console_init_def decode_replace_def utf8_head_def quit_cmd_def break_cmd_def)

text \<open>
  The user interrupts and then quits, and the three sends of the child process,
  \<open>break\r\<close>, \<open>\r\<close> and \<open>quit\r\<close>, arrive in one read. The buffer contains \<open>break\r\<close>, yet no
  control byte is queued: the thread exits.
\<close>

theorem quit_wins_over_break:
  "contains break_cmd (decode_replace [98, 114, 101, 97, 107, 13, 13, 113, 117, 105, 116, 13])
   \<and> consoleThread [Received [98, 114, 101, 97, 107, 13, 13, 113, 117, 105, 116, 13]] console_init
     = Exited \<lparr>charBuf = [98, 114, 101, 97, 107, 13, 13, 113, 117, 105, 116, 13],
                clogged = [[98, 114, 101, 97, 107, 13, 13, 113, 117, 105, 116, 13, 10]],
                queued = [], printed = []\<rparr>"
  by (simp add: console_step_def console_init_def decode_replace_def utf8_head_def
        reLines_findall.simps quit_cmd_def break_cmd_def encode_cp_def encodable_cp_def
        utf8_of_cp_def rstrip_cr_def Let_def)

text \<open>
  Claim C10, as the code has it. The reserved commands are found as substrings anywhere
  in the buffer, not as whole lines. A buffer with \<open>quit\r\<close> anywhere ends the session and
  the line is neither echoed nor queued. A buffer with \<open>break\r\<close> anywhere and no \<open>quit\r\<close>
  triggers the break: the whole buffer is cleared, so the complete lines before it are
  never queued.
\<close>

theorem reserved_commands_by_substring:
  assumes "bytesIn \<noteq> []"
  shows "(charBuf st @ decode_replace bytesIn = pre @ quit_cmd @ post \<longrightarrow>
            console_step st (Received bytesIn) =
              Break (st\<lparr>clogged := clogged st @ [bytesIn @ [0x0A]],
                         charBuf := pre @ quit_cmd @ post\<rparr>))
       \<and> (charBuf st @ decode_replace bytesIn = pre @ break_cmd @ post
            \<and> \<not> contains quit_cmd (pre @ break_cmd @ post) \<longrightarrow>
            console_step st (Received bytesIn) =
              Continue (st\<lparr>clogged := clogged st @ [bytesIn @ [0x0A]],
                            printed := printed st @ [breaking_msg],
                            charBuf := [],
                            queued := queued st @ [[0x03]]\<rparr>))"
proof -
  have q: "contains quit_cmd (pre @ quit_cmd @ post)" by (auto simp add: contains_iff)
  have b: "contains break_cmd (pre @ break_cmd @ post)" by (auto simp add: contains_iff)
  show ?thesis
    using step_quit [OF assms, of st] step_break [OF assms, of st] q b by auto
qed

theorem reserved_commands_by_substring_witness:
  "console_step console_init (Received [115, 97, 121, 32, 113, 117, 105, 116, 13])
     = Break \<lparr>charBuf = [115, 97, 121, 32, 113, 117, 105, 116, 13],
               clogged = [[115, 97, 121, 32, 113, 117, 105, 116, 13, 10]],
               queued = [], printed = []\<rparr>
   \<and> console_step console_init (Received [108, 105, 115, 116, 13, 98, 114, 101, 97, 107, 13])
     = Continue \<lparr>charBuf = [],
                  clogged = [[108, 105, 115, 116, 13, 98, 114, 101, 97, 107, 13, 10]],
                  queued = [[0x03]], printed = [breaking_msg]\<rparr>"
  using reserved_commands_by_substring
      [of "[115, 97, 121, 32, 113, 117, 105, 116, 13]" console_init "[115, 97, 121, 32]" "[]"]
    reserved_commands_by_substring
      [of "[108, 105, 115, 116, 13, 98, 114, 101, 97, 107, 13]" console_init "[108, 105, 115, 116, 13]" "[]"]
  by (simp add: console_init_def decode_replace_def utf8_head_def quit_cmd_def break_cmd_def)

text \<open>
  A buffer with \<open>break\r\<close> followed by a line that ends in \<open>quit\r\<close> does not trigger the
  break: the thread exits with nothing queued.
\<close>

theorem break_before_quit_is_dropped:
  "contains break_cmd (decode_replace [98, 114, 101, 97, 107, 13, 115, 97, 121, 32, 113, 117, 105, 116, 13])
   \<and> console_step console_init
        (Received [98, 114, 101, 97, 107, 13, 115, 97, 121, 32, 113, 117, 105, 116, 13])
     = Break \<lparr>charBuf = [98, 114, 101, 97, 107, 13, 115, 97, 121, 32, 113, 117, 105, 116, 13],
               clogged = [[98, 114, 101, 97, 107, 13, 115, 97, 121, 32, 113, 117, 105, 116, 13, 10]],
               queued = [], printed = []\<rparr>"
  by (simp add: console_step_def console_init_def decode_replace_def utf8_head_def
        reLines_findall.simps quit_cmd_def break_cmd_def encode_cp_def encodable_cp_def
        utf8_of_cp_def rstrip_cr_def Let_def)


text \<open>
  Every iteration of the reader that has bytes to process writes them to the log,
  the held trail in front, whatever becomes of the console write.
\<close>

lemma reader_step_logs:
  assumes "trail st @ data \<noteq> []"
  shows "logged (step_state (reader_step console st (Received data)))
           = logged st @ [trail st @ data]"
proof (cases "trail st = []")
  case True
  then show ?thesis using assms
    by (cases "console (consoleFormat (fst (reassemble data)))")
       (simp_all add: reader_step_def Let_def)
next
  case False
  then show ?thesis
    by (cases "console (consoleFormat (fst (reassemble (trail st @ data))))")
       (simp_all add: reader_step_def Let_def)
qed

text \<open>
  Claim C7. The log is to hold the bytes received from the Roku, each once. When the two
  bytes \<open>0xC3\<close>, \<open>0xA9\<close> of one character arrive in two reads, the first read logs \<open>0xC3\<close>
  and holds it back as trail; the second read prepends the trail and logs
  \<open>0xC3 0xA9\<close>. The log then holds \<open>0xC3\<close> twice and differs from the bytes received.
\<close>

theorem trail_bytes_logged_twice:
  "logged (run_state (rokuReaderThread console_ok
       [Received [0xC3], Received [0xA9]] reader_init)) = [[0xC3], [0xC3, 0xA9]]
   \<and> concat (logged (run_state (rokuReaderThread console_ok
       [Received [0xC3], Received [0xA9]] reader_init))) = [0xC3, 0xC3, 0xA9]
   \<and> concat (logged (run_state (rokuReaderThread console_ok
       [Received [0xC3], Received [0xA9]] reader_init))) \<noteq> concat [[0xC3], [0xA9]]"
  by (simp add: reader_step_def reader_init_def console_ok_def reassemble_def is_cont_def
      expected_cont_def drop_bit_eq_div Let_def)

text \<open>The log is longer than what was received: three bytes for two.\<close>

theorem trail_bytes_logged_twice_witness:
  "length (concat (logged (run_state (rokuReaderThread console_ok
       [Received [0xC3], Received [0xA9]] reader_init)))) = 3
   \<and> length (concat [[0xC3], [0xA9 :: byte]]) = 2"
  using trail_bytes_logged_twice by simp

section \<open>\<open>consoleFormat\<close> on byte strings\<close>

lemma hexdigit_ascii: "d < 16 \<Longrightarrow> hexdigit d < 128"
  by (simp add: hexdigit_def)

lemma escape_byte_encodable: "list_all encodable_cp (escape_byte b)"
proof -
  have l: "unat b < 256" by (rule unat_byte_less)
  then have "unat b div 16 < 16" by simp
  then show ?thesis
    using hexdigit_ascii [of "unat b div 16"] hexdigit_ascii [of "unat b mod 16"]
    by (simp add: escape_byte_def format_x2 [OF l] encodable_cp_def)
qed

lemma span_encodable: "list_all encodable_cp (concat (map escape_byte span))"
  by (induction span) (simp_all add: escape_byte_encodable)

lemma item_bsr_encodable:
  "list_all encodable_cp (concat (map item_backslashreplace (utf8_items bs)))"
proof (induction bs rule: utf8_items.induct)
  case 1
  then show ?case by simp
next
  case (2 b bs)
  have "list_all encodable_cp (item_backslashreplace (fst (utf8_head b bs)))"
  proof (cases "fst (utf8_head b bs)")
    case (Chr c)
    then show ?thesis using head_Chr_encodable [of b bs c] by simp
  next
    case (Bad span)
    then show ?thesis by (simp add: span_encodable)
  qed
  then show ?case using 2 by simp
qed

lemma decode_bsr_encodable: "list_all encodable_cp (decode_backslashreplace bs)"
  by (simp add: decode_backslashreplace_def item_bsr_encodable)

lemma encodable_le: "encodable_cp c \<Longrightarrow> c \<le> 0x10FFFF"
  by (auto simp add: encodable_cp_def)

lemma consoleFormat_render: "consoleFormat bs = concat (map spec_render (decode_backslashreplace bs))"
proof -
  have "\<forall>c \<in> set (decode_backslashreplace bs). consoleChar c = spec_render c"
    using decode_bsr_encodable [of bs]
    by (auto simp add: list_all_iff intro: consoleChar_render encodable_le)
  then have "map consoleChar (decode_backslashreplace bs)
               = map spec_render (decode_backslashreplace bs)"
    by (intro map_cong refl) simp
  then show ?thesis by (simp only: consoleFormat_def)
qed


lemma unat_of_nat_byte: "n < 256 \<Longrightarrow> unat (of_nat n :: byte) = n"
  by (simp add: unat_of_nat)

lemma mod_lead2: "x < 32 \<Longrightarrow> (192 + x) mod 32 = (x::nat)"
proof -
  assume a: "x < 32"
  have "(192 + x) mod 32 = (x + 6 * 32) mod 32" by (simp add: add.commute)
  also have "\<dots> = x mod 32" by (rule mod_mult_self1)
  finally show ?thesis using a by simp
qed

lemma head1: "unat b < 128 \<Longrightarrow> utf8_head b r = (Chr (unat b), 0)"
  by (simp add: utf8_head_def)

lemma head2:
  "194 \<le> unat b \<Longrightarrow> unat b < 224 \<Longrightarrow> is_cont c2 \<Longrightarrow>
   utf8_head b (c2 # r) = (Chr (unat b mod 32 * 64 + unat c2 mod 64), 1)"
  by (simp add: utf8_head_def and_low_bits push_bit_eq_mult)

lemma head3:
  "224 \<le> unat b \<Longrightarrow> unat b < 240 \<Longrightarrow> is_cont c2 \<Longrightarrow> is_cont c3 \<Longrightarrow>
   \<not> (if unat c2 < 160 then unat b = 224 else unat b = 237) \<Longrightarrow>
   utf8_head b (c2 # c3 # r)
     = (Chr (unat b mod 16 * 4096 + unat c2 mod 64 * 64 + unat c3 mod 64), 2)"
  by (simp add: utf8_head_def and_low_bits push_bit_eq_mult)

lemma head4:
  "240 \<le> unat b \<Longrightarrow> unat b < 245 \<Longrightarrow> is_cont c2 \<Longrightarrow> is_cont c3 \<Longrightarrow> is_cont c4 \<Longrightarrow>
   \<not> (if unat c2 < 144 then unat b = 240 else unat b = 244) \<Longrightarrow>
   utf8_head b (c2 # c3 # c4 # r)
     = (Chr (unat b mod 8 * 262144 + unat c2 mod 64 * 4096 + unat c3 mod 64 * 64
             + unat c4 mod 64), 3)"
  by (simp add: utf8_head_def and_low_bits push_bit_eq_mult)

lemma cont_byte:
  assumes "x < 64"
  shows "is_cont (of_nat (128 + x)) \<and> unat (of_nat (128 + x) :: byte) = 128 + x"
proof -
  have u: "unat (of_nat (128 + x) :: byte) = 128 + x"
    using assms by (intro unat_of_nat_byte) simp
  show ?thesis unfolding is_cont_iff u using assms by simp
qed

lemma split3: "(c::nat) = c div 4096 * 4096 + c div 64 mod 64 * 64 + c mod 64"
proof -
  have "c mod (64 * 64) = 64 * (c div 64 mod 64) + c mod 64" by (rule mod_mult2_eq)
  then have "c mod 4096 = c div 64 mod 64 * 64 + c mod 64" by simp
  moreover have "c = c div 4096 * 4096 + c mod 4096" by simp
  ultimately show ?thesis by linarith
qed

lemma split4:
  "(c::nat) = c div 262144 * 262144 + c div 4096 mod 64 * 4096 + c div 64 mod 64 * 64 + c mod 64"
proof -
  have "c mod (4096 * 64) = 4096 * (c div 4096 mod 64) + c mod 4096" by (rule mod_mult2_eq)
  then have a: "c mod 262144 = c div 4096 mod 64 * 4096 + c mod 4096" by simp
  have "c mod (64 * 64) = 64 * (c div 64 mod 64) + c mod 64" by (rule mod_mult2_eq)
  then have b: "c mod 4096 = c div 64 mod 64 * 64 + c mod 64" by simp
  have "c = c div 262144 * 262144 + c mod 262144" by simp
  then show ?thesis using a b by linarith
qed

lemma roundtrip1:
  assumes "c < 128"
  shows "utf8_items (utf8_of_cp c) = [Chr c]"
proof -
  define b1 :: byte where "b1 = of_nat c"
  have u: "unat b1 = c" unfolding b1_def using assms by (intro unat_of_nat_byte) simp
  have "utf8_of_cp c = [b1]" using assms by (simp add: utf8_of_cp_def b1_def)
  then show ?thesis using head1 [of b1 "[]"] u assms by simp
qed

lemma roundtrip2:
  assumes "128 \<le> c" and "c < 2048"
  shows "utf8_items (utf8_of_cp c) = [Chr c]"
proof -
  define q r where "q = c div 64" and "r = c mod 64"
  have c: "c = q * 64 + r" by (simp add: q_def r_def)
  have q: "2 \<le> q" "q < 32" and r: "r < 64" using assms by (simp_all add: q_def r_def)
  define b1 b2 :: byte where "b1 = of_nat (192 + q)" and "b2 = of_nat (128 + r)"
  have u1: "unat b1 = 192 + q" unfolding b1_def using q by (intro unat_of_nat_byte) simp
  have c2: "is_cont b2" and u2: "unat b2 = 128 + r" unfolding b2_def using cont_byte [OF r] by simp_all
  have enc: "utf8_of_cp c = [b1, b2]"
    using assms by (simp add: utf8_of_cp_def b1_def b2_def q_def r_def)
  have "utf8_head b1 [b2] = (Chr (unat b1 mod 32 * 64 + unat b2 mod 64), 1)"
    using q by (intro head2 c2) (simp_all add: u1)
  then have "utf8_head b1 [b2] = (Chr c, 1)"
    using q r by (simp add: u1 u2 mod_lead2 mod_cont c)
  then show ?thesis by (simp add: enc)
qed


lemma roundtrip3:
  assumes "2048 \<le> c" and "c < 65536" and "\<not> (55296 \<le> c \<and> c \<le> 57343)"
  shows "utf8_items (utf8_of_cp c) = [Chr c]"
proof -
  define q1 q2 r where "q1 = c div 4096" and "q2 = c div 64 mod 64" and "r = c mod 64"
  have c: "c = q1 * 4096 + q2 * 64 + r" unfolding q1_def q2_def r_def by (rule split3)
  have q1: "q1 < 16" using assms(2) by (simp add: q1_def)
  have q2: "q2 < 64" and r: "r < 64" by (simp_all add: q2_def r_def)
  define b1 b2 b3 :: byte
    where "b1 = of_nat (224 + q1)" and "b2 = of_nat (128 + q2)" and "b3 = of_nat (128 + r)"
  have u1: "unat b1 = 224 + q1" unfolding b1_def using q1 by (intro unat_of_nat_byte) simp
  have c2: "is_cont b2" and u2: "unat b2 = 128 + q2"
    unfolding b2_def using cont_byte [OF q2] by simp_all
  have c3: "is_cont b3" and u3: "unat b3 = 128 + r"
    unfolding b3_def using cont_byte [OF r] by simp_all
  have enc: "utf8_of_cp c = [b1, b2, b3]"
    using assms(1,2) by (simp add: utf8_of_cp_def b1_def b2_def b3_def q1_def q2_def r_def)
  have low: "q2 < 32 \<Longrightarrow> q1 \<noteq> 0" using assms(1) c r by linarith
  have sur: "\<not> q2 < 32 \<Longrightarrow> q1 \<noteq> 13" using assms(3) c q2 r by linarith
  have cond: "\<not> (if unat b2 < 160 then unat b1 = 224 else unat b1 = 237)"
    using low sur by (simp add: u1 u2)
  have "utf8_head b1 [b2, b3]
          = (Chr (unat b1 mod 16 * 4096 + unat b2 mod 64 * 64 + unat b3 mod 64), 2)"
    using q1 cond by (intro head3 c2 c3) (simp_all add: u1)
  then have "utf8_head b1 [b2, b3] = (Chr c, 2)"
    using q1 q2 r by (simp add: u1 u2 u3 mod_lead3 mod_cont c)
  then show ?thesis by (simp add: enc)
qed

lemma roundtrip4:
  assumes "65536 \<le> c" and "c < 1114112"
  shows "utf8_items (utf8_of_cp c) = [Chr c]"
proof -
  define q1 q2 q3 r
    where "q1 = c div 262144" and "q2 = c div 4096 mod 64" and "q3 = c div 64 mod 64"
      and "r = c mod 64"
  have c: "c = q1 * 262144 + q2 * 4096 + q3 * 64 + r"
    unfolding q1_def q2_def q3_def r_def by (rule split4)
  have q1: "q1 < 5" using assms(2) by (simp add: q1_def)
  have q2: "q2 < 64" and q3: "q3 < 64" and r: "r < 64" by (simp_all add: q2_def q3_def r_def)
  define b1 b2 b3 b4 :: byte
    where "b1 = of_nat (240 + q1)" and "b2 = of_nat (128 + q2)" and "b3 = of_nat (128 + q3)"
      and "b4 = of_nat (128 + r)"
  have u1: "unat b1 = 240 + q1" unfolding b1_def using q1 by (intro unat_of_nat_byte) simp
  have c2: "is_cont b2" and u2: "unat b2 = 128 + q2"
    unfolding b2_def using cont_byte [OF q2] by simp_all
  have c3: "is_cont b3" and u3: "unat b3 = 128 + q3"
    unfolding b3_def using cont_byte [OF q3] by simp_all
  have c4: "is_cont b4" and u4: "unat b4 = 128 + r"
    unfolding b4_def using cont_byte [OF r] by simp_all
  have enc: "utf8_of_cp c = [b1, b2, b3, b4]"
    using assms(1)
    by (simp add: utf8_of_cp_def b1_def b2_def b3_def b4_def q1_def q2_def q3_def r_def)
  have low: "q2 < 16 \<Longrightarrow> q1 \<noteq> 0" using assms(1) c q3 r by linarith
  have high: "\<not> q2 < 16 \<Longrightarrow> q1 \<noteq> 4" using assms(2) c by linarith
  have cond: "\<not> (if unat b2 < 144 then unat b1 = 240 else unat b1 = 244)"
    using low high by (simp add: u1 u2)
  have q18: "q1 < 8" using q1 by simp
  have "utf8_head b1 [b2, b3, b4]
          = (Chr (unat b1 mod 8 * 262144 + unat b2 mod 64 * 4096 + unat b3 mod 64 * 64
                  + unat b4 mod 64), 3)"
    using q1 cond by (intro head4 c2 c3 c4) (simp_all add: u1)
  then have "utf8_head b1 [b2, b3, b4] = (Chr c, 3)"
    using q18 q2 q3 r by (simp add: u1 u2 u3 u4 mod_lead4 mod_cont c)
  then show ?thesis by (simp add: enc)
qed

lemma decode_encode:
  assumes "encodable_cp c"
  shows "decode_backslashreplace (utf8_of_cp c) = [c]"
proof -
  consider "c < 128" | "128 \<le> c" "c < 2048" | "2048 \<le> c" "c < 65536" | "65536 \<le> c"
    by linarith
  then have "utf8_items (utf8_of_cp c) = [Chr c]"
  proof cases
    case 1
    then show ?thesis by (rule roundtrip1)
  next
    case 2
    then show ?thesis by (rule roundtrip2)
  next
    case 3
    then show ?thesis using assms by (intro roundtrip3) (auto simp add: encodable_cp_def)
  next
    case 4
    then show ?thesis using assms by (intro roundtrip4) (auto simp add: encodable_cp_def)
  qed
  then show ?thesis by (simp add: decode_backslashreplace_def)
qed

text \<open>
  Claim C2. \<open>consoleFormat\<close> renders every byte string code point by code point, by the
  table of the specification, and every code point it meets is at most \<open>0x10FFFF\<close>:
  printable ASCII, TAB, CR and LF are kept; any other code point below \<open>0x80\<close> becomes
  \<open>\xhh\<close> with two lower-case digits; \<open>0x80\<close> to \<open>0x513\<close> is kept; \<open>0x514\<close> to \<open>0xFFFF\<close>
  becomes \<open>\uhhhh\<close>; \<open>0x10000\<close> to \<open>0x10FFFF\<close> becomes the surrogate pair \<open>\uhhhh\uhhhh\<close>.
  In particular the UTF-8 encoding of a code point is rendered as the table says for
  that code point. The loop body agrees with the table on every code point up to
  \<open>0x10FFFF\<close>, and reads \<open>printable\<close> inside its 128 entries.
\<close>

theorem consoleFormat_by_range:
  "consoleFormat bs = concat (map spec_render (decode_backslashreplace bs))
   \<and> list_all (\<lambda>cp. cp \<le> 0x10FFFF) (decode_backslashreplace bs)
   \<and> (encodable_cp cp \<longrightarrow> consoleFormat (utf8_of_cp cp) = spec_render cp)
   \<and> (cp \<le> 0x10FFFF \<longrightarrow> consoleChar cp = spec_render cp)
   \<and> length printable = 128"
proof -
  have a: "list_all (\<lambda>cp. cp \<le> 0x10FFFF) (decode_backslashreplace bs)"
    using decode_bsr_encodable [of bs] by (auto simp add: list_all_iff dest: encodable_le)
  have b: "encodable_cp cp \<longrightarrow> consoleFormat (utf8_of_cp cp) = spec_render cp"
    by (simp add: consoleFormat_render decode_encode)
  show ?thesis
    using consoleFormat_render [of bs] a b consoleChar_render [of cp] printable_length by blast
qed

theorem consoleFormat_by_range_witness:
  "consoleFormat [0x41, 0x07, 0xC3, 0xA9, 0xE2, 0x82, 0xAC, 0xF0, 0x9F, 0x98, 0x80]
     = [0x41] @ [92, 120, 48, 55] @ [0xE9] @ [92, 117, 50, 48, 97, 99]
       @ [92, 117, 100, 56, 51, 100, 92, 117, 100, 101, 48, 48]
   \<and> consoleFormat (utf8_of_cp 0x20AC) = [92, 117, 50, 48, 97, 99]
   \<and> consoleChar 0x20AC = [92, 117, 50, 48, 97, 99]"
proof -
  have d: "decode_backslashreplace [0x41, 0x07, 0xC3, 0xA9, 0xE2, 0x82, 0xAC, 0xF0, 0x9F, 0x98, 0x80]
             = [0x41, 0x07, 0xE9, 0x20AC, 0x1F600]"
    by (simp add: decode_backslashreplace_def utf8_head_def is_cont_def drop_bit_eq_div
        and_low_bits push_bit_eq_mult)
  have e: "encodable_cp 0x20AC" by (simp add: encodable_cp_def)
  have r: "spec_render 0x41 = [0x41]" "spec_render 0x07 = [92, 120, 48, 55]"
    "spec_render 0xE9 = [0xE9]" "spec_render 0x20AC = [92, 117, 50, 48, 97, 99]"
    "spec_render 0x1F600 = [92, 117, 100, 56, 51, 100, 92, 117, 100, 101, 48, 48]"
    by (simp_all add: spec_render_def hex2_def hex4_def hexdigit_def spec_high_def spec_low_def
        drop_bit_eq_div and_3ff)
  show ?thesis
    using consoleFormat_by_range
      [of "[0x41, 0x07, 0xC3, 0xA9, 0xE2, 0x82, 0xAC, 0xF0, 0x9F, 0x98, 0x80]" "0x20AC"] e
    by (simp add: d r)
qed

end
